theory Spec2Isabelle
  imports Main "HOL-Library.Word"
begin

section \<open>The region engine of \<open>arena_alloc\<close>\<close>

text \<open>
  The engine of the arena allocator (namespace \<open>arena::detail\<close>) keeps a vector of
  Regions, \<open>S_regions\<close>. It is embedded by explicit state passing: every function
  takes the vector as a list and returns the updated list. A \<open>region_iterator\<close> is the
  index of a Region in the list, \<open>None\<close> standing for \<open>S_regions.end ()\<close>.
  Pointers (\<open>char *\<close>) and \<open>std::size_t\<close> are 64-bit words, \<open>unsigned\<close> is a
  32-bit word: pointer and size arithmetic wraps around as the machine's does, and
  pointers are compared as unsigned addresses. The null pointer is the address 0.

  The raw memory of a new Region comes from the backing store
  (\<open>S_alloc.allocate\<close> in the heap variant, \<open>allocate_memory\<close> in the virtual-memory
  variant). Its address is the environment's choice, so the functions that may
  construct a Region take it as the argument \<open>mem\<close>: the address the backing store
  hands out if it is asked. The contents of memory (\<open>std::memcpy\<close>) and the mutex
  (\<open>Lock\<close>) are not part of the model.
\<close>

type_synonym size_t = "64 word"
type_synonym ptr = "64 word"

record Region =
  M_capacity :: size_t
  M_data :: ptr
  M_size :: size_t
  M_ref_count :: "32 word"

definition S_capacity :: size_t where
  "S_capacity = 4096"

text \<open>The constructor \<open>Region (min_cap)\<close>; \<open>mem\<close> is the block of the backing store.\<close>

definition Region_new :: "size_t \<Rightarrow> ptr \<Rightarrow> Region" where
  "Region_new min_cap mem =
     \<lparr>M_capacity = max S_capacity min_cap, M_data = mem, M_size = 0, M_ref_count = 0\<rparr>"

definition Region_data :: "Region \<Rightarrow> ptr" where
  "Region_data r = M_data r"

definition Region_top :: "Region \<Rightarrow> ptr" where
  "Region_top r = M_data r + M_size r"

definition Region_end :: "Region \<Rightarrow> ptr" where
  "Region_end r = M_data r + M_capacity r"

text \<open>\<open>resize\<close> takes a \<open>std::ptrdiff_t\<close>; added to the unsigned size it wraps.\<close>

definition Region_resize :: "64 word \<Rightarrow> Region \<Rightarrow> Region" where
  "Region_resize diff r = r\<lparr>M_size := M_size r + diff\<rparr>"

definition Region_clear :: "Region \<Rightarrow> Region" where
  "Region_clear r = r\<lparr>M_size := 0\<rparr>"

definition Region_ref :: "Region \<Rightarrow> Region" where
  "Region_ref r = r\<lparr>M_ref_count := M_ref_count r + 1\<rparr>"

definition Region_unref :: "Region \<Rightarrow> Region" where
  "Region_unref r = r\<lparr>M_ref_count := M_ref_count r - 1\<rparr>"

definition Region_unused :: "Region \<Rightarrow> bool" where
  "Region_unused r = (M_ref_count r = 0)"

subsection \<open>The heap-delegating variant\<close>

text \<open>The loop of \<open>find_region_containing\<close>: the first Region with \<open>data \<le> p < top\<close>.\<close>

fun find_region_containing :: "ptr \<Rightarrow> Region list \<Rightarrow> nat option" where
  "find_region_containing p [] = None"
| "find_region_containing p (r # rs) =
     (if Region_data r \<le> p \<and> p < Region_top r then Some 0
      else map_option Suc (find_region_containing p rs))"

text \<open>The capacity test \<open>it->top () + n < it->end ()\<close> of \<open>find_region_fitting\<close>.\<close>

definition fits :: "size_t \<Rightarrow> Region \<Rightarrow> bool" where
  "fits n r = (Region_top r + n < Region_end r)"

text \<open>The second loop of \<open>find_region_fitting\<close>: the first Region that passes the test.\<close>

fun first_fitting :: "size_t \<Rightarrow> Region list \<Rightarrow> nat option" where
  "first_fitting n [] = None"
| "first_fitting n (r # rs) =
     (if fits n r then Some 0 else map_option Suc (first_fitting n rs))"

definition find_region_fitting :: "size_t \<Rightarrow> ptr \<Rightarrow> Region list \<Rightarrow> nat option" where
  "find_region_fitting n hint rs =
     (if hint \<noteq> 0 \<and>
         (case find_region_containing hint rs of
            None \<Rightarrow> False
          | Some i \<Rightarrow> fits n (rs ! i))
      then find_region_containing hint rs
      else first_fitting n rs)"

definition allocate :: "size_t \<Rightarrow> ptr \<Rightarrow> ptr \<Rightarrow> Region list \<Rightarrow> ptr \<times> Region list" where
  "allocate n hint mem rs =
     (let (i, rs1) =
            (case find_region_fitting n hint rs of
               None \<Rightarrow> (length rs, rs @ [Region_new n mem])
             | Some i \<Rightarrow> (i, rs));
          r = Region_top (rs1 ! i)
      in (r, rs1[i := Region_ref (Region_resize n (rs1 ! i))]))"

definition deallocate :: "ptr \<Rightarrow> size_t \<Rightarrow> Region list \<Rightarrow> Region list" where
  "deallocate p n rs =
     (case find_region_containing p rs of
        None \<Rightarrow> rs
      | Some i \<Rightarrow>
          (let r = Region_unref (rs ! i)
           in rs[i := (if Region_unused r then Region_clear r
                       else if Region_top r - n = p then Region_resize (0 - n) r
                       else r)]))"

definition reallocate ::
  "ptr \<Rightarrow> size_t \<Rightarrow> size_t \<Rightarrow> ptr \<Rightarrow> ptr \<Rightarrow> Region list \<Rightarrow> ptr \<times> Region list" where
  "reallocate p from_n to_n hint mem rs =
     (if p = 0 then allocate to_n hint mem rs
      else case find_region_containing p rs of
        None \<Rightarrow> (0, rs)
      | Some i \<Rightarrow>
          if to_n = 0 then (0, deallocate p from_n rs)
          else
            (let diff = to_n - from_n; r = rs ! i
             in if Region_top r - from_n = p \<and> Region_top r + diff < Region_end r
                then (p, rs[i := Region_resize diff r])
                else if to_n \<le> from_n then (p, rs)
                else (let (new_p, rs1) = allocate to_n hint mem rs
                      in (new_p, deallocate p from_n rs1))))"

definition default_region_size :: size_t where
  "default_region_size = S_capacity"

subsection \<open>The virtual-memory variant\<close>

















definition vm_default_region_size :: size_t where
  "vm_default_region_size = S_capacity"


subsection \<open>The member functions of \<open>Allocator<T>\<close>\<close>

text \<open>
  \<open>sizeof_T\<close> is \<open>sizeof (T)\<close>; the byte count \<open>n * sizeof (T)\<close> is computed in
  \<open>std::size_t\<close>.
\<close>

definition Allocator_allocate ::
  "size_t \<Rightarrow> size_t \<Rightarrow> ptr \<Rightarrow> ptr \<Rightarrow> Region list \<Rightarrow> ptr \<times> Region list" where
  "Allocator_allocate sizeof_T n hint mem rs =
     (if n = 0 then (0, rs) else allocate (n * sizeof_T) hint mem rs)"

definition Allocator_deallocate :: "size_t \<Rightarrow> ptr \<Rightarrow> size_t \<Rightarrow> Region list \<Rightarrow> Region list" where
  "Allocator_deallocate sizeof_T p n rs =
     (if p = 0 then rs else deallocate p (n * sizeof_T) rs)"

definition Allocator_reallocate ::
  "size_t \<Rightarrow> ptr \<Rightarrow> size_t \<Rightarrow> size_t \<Rightarrow> ptr \<Rightarrow> ptr \<Rightarrow> Region list \<Rightarrow> ptr \<times> Region list" where
  "Allocator_reallocate sizeof_T p from_n to_n hint mem rs =
     reallocate p (from_n * sizeof_T) (to_n * sizeof_T) hint mem rs"

section \<open>Call sequences\<close>

text \<open>
  A call of the engine, with its arguments. \<open>Allocate n hint mem\<close> and
  \<open>Reallocate p from_n to_n hint mem\<close> carry the address \<open>mem\<close> that the backing
  store hands out if the call has to construct a Region.
\<close>

datatype call =
    Allocate size_t ptr ptr
  | Deallocate ptr size_t
  | Reallocate ptr size_t size_t ptr ptr

text \<open>
  One call run on each variant: the pointer it returns (\<open>deallocate\<close> returns
  nothing, written as the null pointer) and the Regions afterwards.
\<close>

fun exec_call :: "call \<Rightarrow> Region list \<Rightarrow> ptr \<times> Region list" where
  "exec_call (Allocate n hint mem) rs = allocate n hint mem rs"
| "exec_call (Deallocate p n) rs = (0, deallocate p n rs)"
| "exec_call (Reallocate p from_n to_n hint mem) rs = reallocate p from_n to_n hint mem rs"




subsection \<open>Live allocations\<close>

text \<open>
  The engine keeps no record of the allocations it has handed out. To speak about
  them, a call sequence is run on the Regions together with the list of live
  allocations, each a pointer with its size in bytes: \<open>allocate\<close> adds the returned
  pointer, \<open>deallocate\<close> removes the freed one, \<open>reallocate\<close> replaces the old
  allocation by the returned one (and, where it returns without doing anything
  because the pointer is in no Region, leaves the list as it is).
\<close>

type_synonym allocation = "ptr \<times> size_t"

fun step :: "call \<Rightarrow> Region list \<times> allocation list \<Rightarrow> Region list \<times> allocation list" where
  "step (Allocate n hint mem) (rs, live) =
     (snd (allocate n hint mem rs), (fst (allocate n hint mem rs), n) # live)"
| "step (Deallocate p n) (rs, live) = (deallocate p n rs, remove1 (p, n) live)"
| "step (Reallocate p from_n to_n hint mem) (rs, live) =
     (snd (reallocate p from_n to_n hint mem rs),
      (if p = 0 then (fst (reallocate p from_n to_n hint mem rs), to_n) # live
       else if find_region_containing p rs = None then live
       else if to_n = 0 then remove1 (p, from_n) live
       else (fst (reallocate p from_n to_n hint mem rs), to_n) # remove1 (p, from_n) live))"

fun run :: "call list \<Rightarrow> Region list \<times> allocation list \<Rightarrow> Region list \<times> allocation list" where
  "run [] s = s"
| "run (c # cs) s = run cs (step c s)"

text \<open>
  A call is owned when the pointer it frees or reallocates is null or a live
  allocation, passed with its exact size.
\<close>

fun owned :: "call \<Rightarrow> allocation list \<Rightarrow> bool" where
  "owned (Allocate n hint mem) live = True"
| "owned (Deallocate p n) live = (p = 0 \<or> (p, n) \<in> set live)"
| "owned (Reallocate p from_n to_n hint mem) live = (p = 0 \<or> (p, from_n) \<in> set live)"

fun owned_calls :: "call list \<Rightarrow> Region list \<times> allocation list \<Rightarrow> bool" where
  "owned_calls [] s = True"
| "owned_calls (c # cs) s = (owned c (snd s) \<and> owned_calls cs (step c s))"

text \<open>The blocks \<open>[data, data + capacity)\<close> of two Regions are apart when they do not meet.\<close>

definition apart :: "Region \<Rightarrow> Region \<Rightarrow> bool" where
  "apart r q =
     (unat (M_data r) + unat (M_capacity r) \<le> unat (M_data q)
      \<or> unat (M_data q) + unat (M_capacity q) \<le> unat (M_data r))"

text \<open>
  What the backing store is assumed to hand out for a Region of \<open>cap\<close> bytes: a
  non-null block in the lower half of the address space that meets no block of an
  existing Region.
\<close>

definition fresh_block :: "ptr \<Rightarrow> size_t \<Rightarrow> Region list \<Rightarrow> bool" where
  "fresh_block mem cap rs =
     (mem \<noteq> 0 \<and> unat mem + unat cap \<le> 2 ^ 63
      \<and> (\<forall>r\<in>set rs. apart \<lparr>M_capacity = cap, M_data = mem, M_size = 0, M_ref_count = 0\<rparr> r))"

text \<open>
  A request is in range when its size is below \<open>2 ^ 63\<close> (no object is larger than
  \<open>PTRDIFF_MAX\<close>) and, if it makes the engine construct a Region, the backing store
  hands out a fresh block.
\<close>

fun request_ok :: "call \<Rightarrow> Region list \<Rightarrow> bool" where
  "request_ok (Allocate n hint mem) rs =
     (unat n < 2 ^ 63
      \<and> (find_region_fitting n hint rs = None \<longrightarrow> fresh_block mem (max S_capacity n) rs))"
| "request_ok (Deallocate p n) rs = True"
| "request_ok (Reallocate p from_n to_n hint mem) rs =
     (unat to_n < 2 ^ 63
      \<and> (find_region_fitting to_n hint rs = None \<longrightarrow> fresh_block mem (max S_capacity to_n) rs))"

fun well_formed :: "call list \<Rightarrow> Region list \<times> allocation list \<Rightarrow> bool" where
  "well_formed [] s = True"
| "well_formed (c # cs) s =
     (owned c (snd s) \<and> request_ok c (fst s) \<and> well_formed cs (step c s))"

text \<open>Two allocations overlap when some address lies in the span of both.\<close>

definition overlap :: "allocation \<Rightarrow> allocation \<Rightarrow> bool" where
  "overlap a b =
     (max (unat (fst a)) (unat (fst b))
        < min (unat (fst a) + unat (snd a)) (unat (fst b) + unat (snd b)))"

subsection \<open>The invariant of the engine\<close>

definition region_ok :: "Region \<Rightarrow> bool" where
  "region_ok r =
     (M_data r \<noteq> 0 \<and> M_capacity r \<noteq> 0
      \<and> unat (M_data r) + unat (M_capacity r) \<le> 2 ^ 63
      \<and> M_size r \<le> M_capacity r)"

text \<open>An allocation lies in the block of a Region; it lies inside its used part.\<close>

definition in_block :: "Region \<Rightarrow> allocation \<Rightarrow> bool" where
  "in_block r a =
     (unat (M_data r) \<le> unat (fst a)
      \<and> unat (fst a) < unat (M_data r) + unat (M_capacity r))"

definition inside :: "Region \<Rightarrow> allocation \<Rightarrow> bool" where
  "inside r a =
     (in_block r a
      \<and> (snd a \<noteq> 0 \<longrightarrow> unat (fst a) + unat (snd a) \<le> unat (M_data r) + unat (M_size r)))"

definition regions_ok :: "Region list \<Rightarrow> bool" where
  "regions_ok rs = ((\<forall>r\<in>set rs. region_ok r) \<and> sorted_wrt apart rs)"

text \<open>
  The invariant: the Regions are well-shaped and their blocks are pairwise apart;
  every live allocation lies inside a Region; no two live allocations overlap; the
  occupancy count of a Region is at least the number of live allocations in its
  block and at most \<open>k\<close>, the number of calls made so far.
\<close>

definition engine_inv :: "nat \<Rightarrow> Region list \<times> allocation list \<Rightarrow> bool" where
  "engine_inv k s =
     (regions_ok (fst s)
      \<and> (\<forall>a\<in>set (snd s). \<exists>r\<in>set (fst s). inside r a)
      \<and> sorted_wrt (\<lambda>a b. \<not> overlap a b) (snd s)
      \<and> (\<forall>r\<in>set (fst s).
            length (filter (in_block r) (snd s)) \<le> unat (M_ref_count r)
            \<and> unat (M_ref_count r) \<le> k))"

subsection \<open>Alternating sequences and the Region of a placement\<close>

text \<open>
  A sequence alternates when it is made of pairs: an \<open>allocate\<close>, then the
  \<open>deallocate\<close> of the pointer it returned with the same size (it may end after
  an \<open>allocate\<close>).
\<close>

fun alternating :: "call list \<Rightarrow> Region list \<Rightarrow> bool" where
  "alternating [] rs = True"
| "alternating [Allocate n hint mem] rs = True"
| "alternating (Allocate n hint mem # Deallocate p m # cs) rs =
     (p = fst (allocate n hint mem rs) \<and> m = n
      \<and> alternating cs (deallocate p m (snd (allocate n hint mem rs))))"
| "alternating cs rs = False"

fun request_size :: "call \<Rightarrow> size_t" where
  "request_size (Allocate n hint mem) = n"
| "request_size (Deallocate p n) = 0"
| "request_size (Reallocate p from_n to_n hint mem) = to_n"

text \<open>The position \<open>it\<close> in \<open>allocate\<close>: the Region found, or the new one at the back.\<close>

definition region_index :: "size_t \<Rightarrow> ptr \<Rightarrow> Region list \<Rightarrow> nat" where
  "region_index n hint rs =
     (case find_region_fitting n hint rs of None \<Rightarrow> length rs | Some i \<Rightarrow> i)"

text \<open>The engine at rest: one Region, empty, of capacity \<open>cap\<close>.\<close>

definition idle :: "size_t \<Rightarrow> Region list \<Rightarrow> bool" where
  "idle cap rs =
     (length rs = 1
      \<and> (\<forall>r\<in>set rs. M_size r = 0 \<and> M_capacity r = cap
            \<and> unat (M_data r) + unat cap < 2 ^ 64))"

subsection \<open>Occupancy counters below their maximum\<close>

text \<open>
  \<open>M_ref_count\<close> is an \<open>unsigned\<close>, and \<open>ref ()\<close> increments it without a test.
  No counter is at its maximum \<open>2 ^ 32 - 1\<close> in a state; in every state that a
  call sequence passes through, the last one included.
\<close>

definition counters_ok :: "Region list \<Rightarrow> bool" where
  "counters_ok rs = (\<forall>r\<in>set rs. M_ref_count r \<noteq> - 1)"

fun counters_hold :: "call list \<Rightarrow> Region list \<times> allocation list \<Rightarrow> bool" where
  "counters_hold [] s = counters_ok (fst s)"
| "counters_hold (c # cs) s = (counters_ok (fst s) \<and> counters_hold cs (step c s))"

subsection \<open>Corresponding runs of the two variants\<close>








section \<open>Basic facts about the searches\<close>

lemma find_region_containing_Some:
  "find_region_containing p rs = Some i \<Longrightarrow>
     i < length rs \<and> Region_data (rs ! i) \<le> p \<and> p < Region_top (rs ! i) \<and>
     (\<forall>k<i. \<not> (Region_data (rs ! k) \<le> p \<and> p < Region_top (rs ! k)))"
proof (induction rs arbitrary: i)
  case Nil
  then show ?case by simp
next
  case (Cons r rs)
  show ?case
  proof (cases "Region_data r \<le> p \<and> p < Region_top r")
    case True
    with Cons.prems show ?thesis by auto
  next
    case False
    with Cons.prems obtain j where j: "find_region_containing p rs = Some j" "i = Suc j"
      by auto
    from Cons.IH [OF j(1)] False j(2) show ?thesis
      by (auto simp: less_Suc_eq_0_disj)
  qed
qed

lemma find_region_containing_None:
  "find_region_containing p rs = None \<longleftrightarrow>
     (\<forall>r\<in>set rs. \<not> (Region_data r \<le> p \<and> p < Region_top r))"
  by (induction rs) auto

lemma first_fitting_Some:
  "first_fitting n rs = Some i \<Longrightarrow>
     i < length rs \<and> fits n (rs ! i) \<and> (\<forall>k<i. \<not> fits n (rs ! k))"
proof (induction rs arbitrary: i)
  case Nil
  then show ?case by simp
next
  case (Cons r rs)
  show ?case
  proof (cases "fits n r")
    case True
    with Cons.prems show ?thesis by auto
  next
    case False
    with Cons.prems obtain j where j: "first_fitting n rs = Some j" "i = Suc j"
      by auto
    from Cons.IH [OF j(1)] False j(2) show ?thesis
      by (auto simp: less_Suc_eq_0_disj)
  qed
qed

lemma first_fitting_None:
  "first_fitting n rs = None \<longleftrightarrow> (\<forall>r\<in>set rs. \<not> fits n r)"
  by (induction rs) auto

lemma first_fitting_iff:
  "first_fitting n rs = Some i \<longleftrightarrow>
     i < length rs \<and> fits n (rs ! i) \<and> (\<forall>k<i. \<not> fits n (rs ! k))"
proof
  assume "first_fitting n rs = Some i"
  then show "i < length rs \<and> fits n (rs ! i) \<and> (\<forall>k<i. \<not> fits n (rs ! k))"
    by (rule first_fitting_Some)
next
  assume "i < length rs \<and> fits n (rs ! i) \<and> (\<forall>k<i. \<not> fits n (rs ! k))"
  then show "first_fitting n rs = Some i"
  proof (induction rs arbitrary: i)
    case Nil
    then show ?case by simp
  next
    case (Cons r rs)
    show ?case
    proof (cases i)
      case 0
      with Cons.prems show ?thesis by simp
    next
      case (Suc j)
      with Cons.prems have "\<not> fits n r" by auto
      moreover from Cons.prems Suc
      have "j < length rs \<and> fits n (rs ! j) \<and> (\<forall>k<j. \<not> fits n (rs ! k))"
        by auto
      ultimately show ?thesis using Cons.IH Suc by simp
    qed
  qed
qed

lemma find_region_fitting_Some:
  "find_region_fitting n hint rs = Some i \<Longrightarrow> i < length rs \<and> fits n (rs ! i)"
  by (auto simp: find_region_fitting_def split: if_splits option.splits
           dest: find_region_containing_Some first_fitting_Some)

lemma find_region_fitting_None:
  "find_region_fitting n hint rs = None \<Longrightarrow> \<forall>r\<in>set rs. \<not> fits n r"
  by (auto simp: find_region_fitting_def first_fitting_None split: if_splits option.splits)

lemma fits_slack: "fits n r \<Longrightarrow> M_capacity r - M_size r \<noteq> n"
proof
  assume f: "fits n r" and e: "M_capacity r - M_size r = n"
  have "Region_top r + n = Region_end r"
    unfolding Region_top_def Region_end_def e [symmetric] by simp
  with f show False by (simp add: fits_def)
qed

lemma fits_unat:
  assumes "unat (M_data r) + unat (M_capacity r) < 2 ^ 64"
    and "unat n < unat (M_capacity r) - unat (M_size r)"
  shows "fits n r"
proof -
  have 1: "unat (M_data r + M_size r) = unat (M_data r) + unat (M_size r)"
    using assms by (simp add: unat_add_lem [THEN iffD1])
  have 2: "unat (M_data r + M_size r + n) = unat (M_data r) + unat (M_size r) + unat n"
    using assms 1 by (simp add: unat_add_lem [THEN iffD1])
  have 3: "unat (M_data r + M_capacity r) = unat (M_data r) + unat (M_capacity r)"
    using assms by (simp add: unat_add_lem [THEN iffD1])
  show ?thesis
    using assms(2) by (simp add: fits_def Region_top_def Region_end_def word_less_nat_alt 1 2 3)
qed

lemma deallocate_null_detail:
  "\<forall>r\<in>set rs. M_data r \<noteq> 0 \<Longrightarrow> deallocate 0 n rs = rs"
proof -
  assume a: "\<forall>r\<in>set rs. M_data r \<noteq> 0"
  have "find_region_containing 0 rs = None"
    unfolding find_region_containing_None
  proof
    fix r assume "r \<in> set rs"
    with a have "M_data r \<noteq> 0" by simp
    then have "\<not> M_data r \<le> 0" by simp
    then show "\<not> (Region_data r \<le> 0 \<and> 0 < Region_top r)"
      by (simp add: Region_data_def)
  qed
  then show ?thesis by (simp add: deallocate_def)
qed

lemma reallocate_to_zero_nonnull:
  "p \<noteq> 0 \<Longrightarrow> reallocate p from_n 0 hint mem rs = (0, deallocate p from_n rs)"
  by (simp add: reallocate_def deallocate_def split: option.splits)

section \<open>Claims about single calls\<close>

text \<open>
  C10. A non-null pointer that lies in no Region's span \<open>[data, top)\<close> is not found by
  \<open>find_region_containing\<close>; \<open>reallocate\<close> then returns the null pointer, for every
  \<open>from_n\<close>, \<open>to_n\<close> (zero included) and \<open>hint\<close>, and the Region list is returned
  unchanged: no Region is added and no size or occupancy is touched.
\<close>

theorem reallocate_foreign_pointer:
  assumes "p \<noteq> 0"
    and "\<forall>r\<in>set rs. \<not> (Region_data r \<le> p \<and> p < Region_top r)"
  shows "reallocate p from_n to_n hint mem rs = (0, rs)"
proof -
  from assms(2) have "find_region_containing p rs = None"
    by (simp add: find_region_containing_None)
  with assms(1) show ?thesis
    by (simp add: reallocate_def)
qed

theorem reallocate_foreign_pointer_witness:
  "reallocate 20000 16 0 0 12288
       [\<lparr>M_capacity = 4096, M_data = 4096, M_size = 32, M_ref_count = 2\<rparr>]
     = (0, [\<lparr>M_capacity = 4096, M_data = 4096, M_size = 32, M_ref_count = 2\<rparr>])
   \<and> reallocate 4128 16 64 4096 12288
       [\<lparr>M_capacity = 4096, M_data = 4096, M_size = 32, M_ref_count = 2\<rparr>]
     = (0, [\<lparr>M_capacity = 4096, M_data = 4096, M_size = 32, M_ref_count = 2\<rparr>])"
  using reallocate_foreign_pointer [of 20000
          "[\<lparr>M_capacity = 4096, M_data = 4096, M_size = 32, M_ref_count = 2\<rparr>]" 16 0 0 12288]
        reallocate_foreign_pointer [of 4128
          "[\<lparr>M_capacity = 4096, M_data = 4096, M_size = 32, M_ref_count = 2\<rparr>]" 16 64 4096 12288]
  by (simp add: Region_data_def Region_top_def)

text \<open>
  C2. \<open>reallocate (p, from_n, 0, hint)\<close> is claimed to return the null pointer for
  every \<open>p\<close>, the null pointer included. For a non-null \<open>p\<close> it does
  (\<open>reallocate_to_zero_nonnull\<close>). For the null pointer the code takes its first
  branch and calls \<open>allocate (0, hint)\<close>, which has no test for a zero size: on the
  empty engine it constructs a Region, counts one allocation in it and returns the
  Region's base address, here the block at 4096, which is not null. So does
  \<open>Allocator<T>::reallocate\<close>, which passes its arguments on unchecked.
\<close>

theorem reallocate_null_to_zero:
  "reallocate 0 from_n 0 hint 4096 [] =
     (4096, [\<lparr>M_capacity = 4096, M_data = 4096, M_size = 0, M_ref_count = 1\<rparr>])
   \<and> Allocator_reallocate sizeof_T 0 from_n 0 hint 4096 [] =
     (4096, [\<lparr>M_capacity = 4096, M_data = 4096, M_size = 0, M_ref_count = 1\<rparr>])"
  by (simp add: Allocator_reallocate_def reallocate_def allocate_def find_region_fitting_def
      Region_new_def Region_top_def Region_ref_def Region_resize_def S_capacity_def)

text \<open>
  C6. \<open>deallocate (p, n)\<close> does nothing when \<open>p\<close> is null: \<open>Allocator<T>::deallocate\<close>
  returns at once, and the engine's \<open>deallocate\<close> finds no Region, since no Region
  starts at the null address. When \<open>p\<close> lies in a Region, the first one whose span
  \<open>[data, top)\<close> holds it, only that Region changes: its occupancy is decremented;
  if the occupancy is then 0 its size becomes 0; else if \<open>top () - n = p\<close> its size
  shrinks by \<open>n\<close>; else its size stays.
\<close>

theorem deallocate_cases:
  "Allocator_deallocate sizeof_T 0 n rs = rs
   \<and> ((\<forall>r\<in>set rs. M_data r \<noteq> 0) \<longrightarrow> deallocate 0 n rs = rs)
   \<and> (find_region_containing p rs = Some i \<longrightarrow>
        deallocate p n rs =
          rs[i := (rs ! i)\<lparr>M_ref_count := M_ref_count (rs ! i) - 1,
                           M_size := (if M_ref_count (rs ! i) - 1 = 0 then 0
                                      else if Region_top (rs ! i) - n = p
                                           then M_size (rs ! i) - n
                                      else M_size (rs ! i))\<rparr>])"
proof (intro conjI impI)
  show "Allocator_deallocate sizeof_T 0 n rs = rs"
    by (simp add: Allocator_deallocate_def)
next
  assume "\<forall>r\<in>set rs. M_data r \<noteq> 0"
  then show "deallocate 0 n rs = rs" by (rule deallocate_null_detail)
next
  assume f: "find_region_containing p rs = Some i"
  let ?r = "rs ! i"
  have eq: "\<And>r r'. r = r' \<Longrightarrow> rs[i := r] = rs[i := r']" by simp
  show "deallocate p n rs =
          rs[i := ?r\<lparr>M_ref_count := M_ref_count ?r - 1,
                           M_size := (if M_ref_count ?r - 1 = 0 then 0
                                      else if Region_top ?r - n = p
                                           then M_size ?r - n
                                      else M_size ?r)\<rparr>]"
    using f
    by (auto simp: deallocate_def Let_def Region_unref_def Region_unused_def Region_clear_def
        Region_top_def Region_resize_def intro!: eq)
qed

theorem deallocate_cases_witness:
  "deallocate 0 8 [\<lparr>M_capacity = 4096, M_data = 4096, M_size = 32, M_ref_count = 2\<rparr>]
     = [\<lparr>M_capacity = 4096, M_data = 4096, M_size = 32, M_ref_count = 2\<rparr>]
   \<and> find_region_containing 4112
        [\<lparr>M_capacity = 4096, M_data = 4096, M_size = 32, M_ref_count = 2\<rparr>] = Some 0
   \<and> deallocate 4112 16 [\<lparr>M_capacity = 4096, M_data = 4096, M_size = 32, M_ref_count = 2\<rparr>]
     = [\<lparr>M_capacity = 4096, M_data = 4096, M_size = 16, M_ref_count = 1\<rparr>]
   \<and> deallocate 4096 16 [\<lparr>M_capacity = 4096, M_data = 4096, M_size = 32, M_ref_count = 2\<rparr>]
     = [\<lparr>M_capacity = 4096, M_data = 4096, M_size = 32, M_ref_count = 1\<rparr>]
   \<and> deallocate 4112 16 [\<lparr>M_capacity = 4096, M_data = 4096, M_size = 32, M_ref_count = 1\<rparr>]
     = [\<lparr>M_capacity = 4096, M_data = 4096, M_size = 0, M_ref_count = 0\<rparr>]"
  using deallocate_cases [of 1 8
          "[\<lparr>M_capacity = 4096, M_data = 4096, M_size = 32, M_ref_count = 2\<rparr>]" 4112 0]
        deallocate_cases [of 1 16
          "[\<lparr>M_capacity = 4096, M_data = 4096, M_size = 32, M_ref_count = 2\<rparr>]" 4112 0]
        deallocate_cases [of 1 16
          "[\<lparr>M_capacity = 4096, M_data = 4096, M_size = 32, M_ref_count = 2\<rparr>]" 4096 0]
        deallocate_cases [of 1 16
          "[\<lparr>M_capacity = 4096, M_data = 4096, M_size = 32, M_ref_count = 1\<rparr>]" 4112 0]
  by (simp add: Region_data_def Region_top_def)

text \<open>
  What \<open>find_region_fitting (n, hint)\<close> returns. The Region of a non-null \<open>hint\<close>
  is the first Region \<open>h\<close> whose used part \<open>[data (), top ())\<close> contains \<open>hint\<close>;
  it is returned when it passes the test \<open>top () + n < end ()\<close>, and otherwise
  the scan decides. With a null \<open>hint\<close>, or one that no Region contains, the
  scan decides as well: it returns the first Region in creation order that
  passes the same test, or the end when none does.
\<close>

lemma find_region_containing_iff:
  "find_region_containing p rs = Some i \<longleftrightarrow>
     i < length rs \<and> Region_data (rs ! i) \<le> p \<and> p < Region_top (rs ! i)
     \<and> (\<forall>k<i. \<not> (Region_data (rs ! k) \<le> p \<and> p < Region_top (rs ! k)))"
proof
  assume "find_region_containing p rs = Some i"
  then show "i < length rs \<and> Region_data (rs ! i) \<le> p \<and> p < Region_top (rs ! i)
     \<and> (\<forall>k<i. \<not> (Region_data (rs ! k) \<le> p \<and> p < Region_top (rs ! k)))"
    by (rule find_region_containing_Some)
next
  assume "i < length rs \<and> Region_data (rs ! i) \<le> p \<and> p < Region_top (rs ! i)
     \<and> (\<forall>k<i. \<not> (Region_data (rs ! k) \<le> p \<and> p < Region_top (rs ! k)))"
  then show "find_region_containing p rs = Some i"
  proof (induction rs arbitrary: i)
    case Nil
    then show ?case by simp
  next
    case (Cons r rs)
    show ?case
    proof (cases i)
      case 0
      with Cons.prems show ?thesis by simp
    next
      case (Suc j)
      with Cons.prems have "\<not> (Region_data r \<le> p \<and> p < Region_top r)" by auto
      moreover from Cons.prems Suc
      have "j < length rs \<and> Region_data (rs ! j) \<le> p \<and> p < Region_top (rs ! j)
         \<and> (\<forall>k<j. \<not> (Region_data (rs ! k) \<le> p \<and> p < Region_top (rs ! k)))"
        by auto
      ultimately show ?thesis using Cons.IH Suc by simp
    qed
  qed
qed

lemma find_region_fitting_hint:
  assumes "hint \<noteq> 0" and "h < length rs"
    and "Region_data (rs ! h) \<le> hint" and "hint < Region_top (rs ! h)"
    and "\<forall>k<h. \<not> (Region_data (rs ! k) \<le> hint \<and> hint < Region_top (rs ! k))"
  shows "find_region_fitting n hint rs =
          (if Region_top (rs ! h) + n < Region_end (rs ! h) then Some h
           else first_fitting n rs)"
proof -
  from assms(2-5) have "find_region_containing hint rs = Some h"
    by (simp add: find_region_containing_iff)
  with assms(1) show ?thesis by (simp add: find_region_fitting_def fits_def)
qed

lemma find_region_fitting_scan:
  assumes "hint = 0
      \<or> (\<forall>k<length rs. \<not> (Region_data (rs ! k) \<le> hint \<and> hint < Region_top (rs ! k)))"
  shows "find_region_fitting n hint rs = first_fitting n rs"
    and "first_fitting n rs = Some i \<longleftrightarrow>
           i < length rs \<and> Region_top (rs ! i) + n < Region_end (rs ! i)
           \<and> (\<forall>k<i. \<not> Region_top (rs ! k) + n < Region_end (rs ! k))"
    and "first_fitting n rs = None \<longleftrightarrow>
           (\<forall>k<length rs. \<not> Region_top (rs ! k) + n < Region_end (rs ! k))"
proof -
  show "find_region_fitting n hint rs = first_fitting n rs"
  proof (cases "hint = 0")
    case True
    then show ?thesis by (simp add: find_region_fitting_def)
  next
    case False
    with assms have "find_region_containing hint rs = None"
      by (auto simp: find_region_containing_None in_set_conv_nth)
    then show ?thesis by (simp add: find_region_fitting_def)
  qed
  show "first_fitting n rs = Some i \<longleftrightarrow>
           i < length rs \<and> Region_top (rs ! i) + n < Region_end (rs ! i)
           \<and> (\<forall>k<i. \<not> Region_top (rs ! k) + n < Region_end (rs ! k))"
    and "first_fitting n rs = None \<longleftrightarrow>
           (\<forall>k<length rs. \<not> Region_top (rs ! k) + n < Region_end (rs ! k))"
    by (simp_all add: first_fitting_iff first_fitting_None all_set_conv_all_nth fits_def)
qed

text \<open>
  C3, as the code has it. The claim asks for at least \<open>n\<close> bytes of remaining
  capacity; the test of the code is strict. When the Region that contains a
  non-null \<open>hint\<close> has strictly more than \<open>n\<close> bytes left between its top and its
  end, \<open>allocate (n, hint)\<close> places the allocation in that Region: it returns the
  Region's old top, grows that Region by \<open>n\<close>, counts one more allocation in it
  and touches no other Region.
\<close>

theorem allocate_hint_locality:
  assumes "hint \<noteq> 0"
    and "find_region_containing hint rs = Some i"
    and "unat (M_data (rs ! i)) + unat (M_capacity (rs ! i)) < 2 ^ 64"
    and "unat n < unat (M_capacity (rs ! i)) - unat (M_size (rs ! i))"
  shows "allocate n hint mem rs =
           (Region_top (rs ! i),
            rs[i := (rs ! i)\<lparr>M_size := M_size (rs ! i) + n,
                             M_ref_count := M_ref_count (rs ! i) + 1\<rparr>])"
proof -
  have "fits n (rs ! i)" using assms(3,4) by (rule fits_unat)
  with assms(1,2) have "find_region_fitting n hint rs = Some i"
    by (simp add: find_region_fitting_def)
  then show ?thesis
    by (simp add: allocate_def Region_ref_def Region_resize_def)
qed

theorem allocate_hint_locality_witness:
  "allocate 95 4096 12288 [\<lparr>M_capacity = 4096, M_data = 4096, M_size = 4000, M_ref_count = 1\<rparr>]
     = (8096, [\<lparr>M_capacity = 4096, M_data = 4096, M_size = 4095, M_ref_count = 2\<rparr>])"
  using allocate_hint_locality [of 4096
          "[\<lparr>M_capacity = 4096, M_data = 4096, M_size = 4000, M_ref_count = 1\<rparr>]" 0 95 12288]
  by (simp add: Region_data_def Region_top_def)

text \<open>
  The claim as stated fails when the remaining capacity is exactly \<open>n\<close>. After
  \<open>allocate (4000)\<close> on the empty engine the only Region has 96 bytes left;
  \<open>allocate (96, hint)\<close> with the first allocation as hint does not use it and
  constructs a second Region.
\<close>

theorem allocate_hint_exact_fit_counterexample:
  "allocate 4000 0 4096 []
     = (4096, [\<lparr>M_capacity = 4096, M_data = 4096, M_size = 4000, M_ref_count = 1\<rparr>])
   \<and> find_region_containing 4096
      [\<lparr>M_capacity = 4096, M_data = 4096, M_size = 4000, M_ref_count = 1\<rparr>] = Some 0
   \<and> Region_end \<lparr>M_capacity = 4096, M_data = 4096, M_size = 4000, M_ref_count = 1\<rparr>
       - Region_top \<lparr>M_capacity = 4096, M_data = 4096, M_size = 4000, M_ref_count = 1\<rparr> \<ge> 96
   \<and> allocate 96 4096 12288
       [\<lparr>M_capacity = 4096, M_data = 4096, M_size = 4000, M_ref_count = 1\<rparr>]
     = (12288, [\<lparr>M_capacity = 4096, M_data = 4096, M_size = 4000, M_ref_count = 1\<rparr>,
                \<lparr>M_capacity = 4096, M_data = 12288, M_size = 96, M_ref_count = 1\<rparr>])"
  by (simp add: allocate_def find_region_fitting_def fits_def Region_data_def Region_top_def
      Region_end_def Region_new_def Region_ref_def Region_resize_def S_capacity_def)

section \<open>The two variants\<close>












lemma vm_default_region_size_eq: "vm_default_region_size = default_region_size"
  by (simp add: vm_default_region_size_def default_region_size_def)

section \<open>Churn\<close>

lemma allocate_empty:
  "allocate n hint mem [] =
     (mem, [\<lparr>M_capacity = max S_capacity n, M_data = mem, M_size = n, M_ref_count = 1\<rparr>])"
  by (simp add: allocate_def find_region_fitting_def Region_new_def Region_top_def
      Region_ref_def Region_resize_def)

lemma allocate_fitting:
  "find_region_fitting n hint rs = Some i \<Longrightarrow>
   allocate n hint mem rs =
     (Region_top (rs ! i), rs[i := Region_ref (Region_resize n (rs ! i))])"
  by (simp add: allocate_def)

lemma allocate_new:
  "find_region_fitting n hint rs = None \<Longrightarrow>
   allocate n hint mem rs =
     (mem, rs @ [\<lparr>M_capacity = max S_capacity n, M_data = mem, M_size = n, M_ref_count = 1\<rparr>])"
  by (simp add: allocate_def Region_new_def Region_top_def Region_ref_def Region_resize_def)

lemma length_deallocate [simp]: "length (deallocate p n rs) = length rs"
  by (simp add: deallocate_def Let_def split: option.splits)

lemma length_allocate_ge: "length rs \<le> length (snd (allocate n hint mem rs))"
  by (cases "find_region_fitting n hint rs") (simp_all add: allocate_new allocate_fitting)

lemma idle_allocate:
  assumes r: "M_size r = 0" "unat (M_data r) + unat (M_capacity r) < 2 ^ 64"
    and n: "unat n < unat (M_capacity r)"
  shows "allocate n hint mem [r]
      = (M_data r, [r\<lparr>M_size := n, M_ref_count := M_ref_count r + 1\<rparr>])"
proof -
  have "fits n r"
    using r n by (intro fits_unat) simp_all
  then have "find_region_fitting n hint [r] = Some 0"
    by (auto simp: find_region_fitting_def split: option.splits if_splits)
  then show ?thesis
    using r(1) by (simp add: allocate_fitting Region_top_def Region_ref_def Region_resize_def)
qed

lemma idle_deallocate:
  assumes r: "M_size r = 0" "unat (M_data r) + unat (M_capacity r) < 2 ^ 64"
    and n: "unat n \<le> unat (M_capacity r)"
  shows "\<exists>c'. deallocate (M_data r) n [r\<lparr>M_size := n, M_ref_count := c\<rparr>]
           = [r\<lparr>M_ref_count := c'\<rparr>]"
proof (cases "n = 0")
  case True
  let ?r1 = "r\<lparr>M_size := n, M_ref_count := c\<rparr>"
  from True have "find_region_containing (M_data r) [?r1] = None"
    by (simp add: Region_data_def Region_top_def)
  then have "deallocate (M_data r) n [?r1] = [?r1]" by (simp add: deallocate_def)
  with True r(1) show ?thesis
    by (intro exI [of _ c]) simp
next
  case False
  let ?r1 = "r\<lparr>M_size := n, M_ref_count := c\<rparr>"
  have eq: "\<And>x. r\<lparr>M_ref_count := x, M_size := 0\<rparr> = r\<lparr>M_ref_count := x\<rparr>"
    using r(1) by (cases r) simp
  have "unat (M_data r + n) = unat (M_data r) + unat n"
    using r(2) n by (simp add: unat_add_lem [THEN iffD1])
  moreover have "0 < unat n" using False by (simp add: unat_gt_0)
  ultimately have "M_data r < M_data r + n" by (simp add: word_less_nat_alt)
  then have "find_region_containing (M_data r) [?r1] = Some 0"
    by (simp add: Region_data_def Region_top_def)
  then have "deallocate (M_data r) n [?r1] = [r\<lparr>M_ref_count := c - 1\<rparr>]"
    using eq
    by (simp add: deallocate_def Let_def Region_unref_def Region_unused_def
        Region_clear_def Region_top_def Region_resize_def)
  then show ?thesis by blast
qed

text \<open>The first cycle constructs the Region; every later one finds it empty again.\<close>

lemma first_cycle:
  assumes "request_ok (Allocate n hint mem) []"
  shows "allocate n hint mem []
      = (mem, [\<lparr>M_capacity = max S_capacity n, M_data = mem, M_size = n, M_ref_count = 1\<rparr>])"
    and "idle (max S_capacity n) (deallocate mem n (snd (allocate n hint mem [])))"
proof -
  let ?r = "\<lparr>M_capacity = max S_capacity n, M_data = mem, M_size = 0, M_ref_count = 0\<rparr>"
  show a: "allocate n hint mem []
      = (mem, [\<lparr>M_capacity = max S_capacity n, M_data = mem, M_size = n, M_ref_count = 1\<rparr>])"
    by (rule allocate_empty)
  from assms have "fresh_block mem (max S_capacity n) []"
    by (simp add: find_region_fitting_def)
  then have w: "unat (M_data ?r) + unat (M_capacity ?r) < 2 ^ 64"
    by (simp add: fresh_block_def)
  have "unat n \<le> unat (M_capacity ?r)" by (simp add: word_le_nat_alt [symmetric])
  from idle_deallocate [OF _ w this, of 1] obtain c' where
    "deallocate mem n [\<lparr>M_capacity = max S_capacity n, M_data = mem, M_size = n, M_ref_count = 1\<rparr>]
       = [?r\<lparr>M_ref_count := c'\<rparr>]"
    by auto
  with a w show "idle (max S_capacity n) (deallocate mem n (snd (allocate n hint mem [])))"
    by (simp add: idle_def)
qed

lemma idle_cycle:
  assumes "idle cap rs" "n < cap"
  shows "length (snd (allocate n hint mem rs)) = 1
    \<and> idle cap (deallocate (fst (allocate n hint mem rs)) n (snd (allocate n hint mem rs)))"
proof -
  from assms(1) obtain r where rs: "rs = [r]"
    by (cases rs) (simp_all add: idle_def)
  with assms(1) have r: "M_size r = 0" "unat (M_data r) + unat (M_capacity r) < 2 ^ 64"
    and c: "M_capacity r = cap"
    by (simp_all add: idle_def)
  from assms(2) c have n: "unat n < unat (M_capacity r)" by (simp add: word_less_nat_alt)
  then have n': "unat n \<le> unat (M_capacity r)" by simp
  from idle_deallocate [OF r n'] obtain c' where
    "deallocate (M_data r) n [r\<lparr>M_size := n, M_ref_count := M_ref_count r + 1\<rparr>]
       = [r\<lparr>M_ref_count := c'\<rparr>]"
    by blast
  with idle_allocate [OF r n] rs r c show ?thesis by (simp add: idle_def)
qed

lemma idle_run:
  assumes "alternating cs rs" "idle cap rs" "\<forall>c\<in>set cs. request_size c < cap"
  shows "length (fst (run cs (rs, live))) = 1"
  using assms
proof (induction cs rs arbitrary: live rule: alternating.induct)
  case (1 rs)
  then show ?case by (simp add: idle_def)
next
  case (2 n hint mem rs)
  then show ?case using idle_cycle [of cap rs n hint mem] by simp
next
  case (3 n hint mem p m cs rs)
  from "3.prems" have pm: "p = fst (allocate n hint mem rs)" "m = n" by simp_all
  from "3.prems" have n: "n < cap" by simp
  from idle_cycle [OF "3.prems"(2) n] pm
  have i: "idle cap (deallocate p m (snd (allocate n hint mem rs)))" by simp
  from "3.prems" pm have a: "alternating cs (deallocate p m (snd (allocate n hint mem rs)))"
    by simp
  from "3.prems" have s: "\<forall>c\<in>set cs. request_size c < cap" by simp
  from "3.IH" [OF a i s] show ?case by simp
qed simp_all

text \<open>
  C4, as the code has it. Take a sequence that alternates \<open>allocate\<close> and the
  \<open>deallocate\<close> of the pointer just returned, started on the empty engine, the
  backing store handing out a proper block for the first call. That call
  constructs a Region whose capacity is the larger of 4096 and the first size. If
  every later requested size is strictly smaller than this capacity, the engine
  has exactly one Region after every call of the sequence.
\<close>

theorem churn_one_region:
  assumes "alternating (Allocate n hint mem # cs) []"
    and "request_ok (Allocate n hint mem) []"
    and "\<forall>c\<in>set cs. request_size c < max default_region_size n"
  shows "length (fst (run (Allocate n hint mem # cs) ([], []))) = 1"
proof (cases cs)
  case Nil
  then show ?thesis by (simp add: allocate_empty)
next
  case (Cons d ds)
  with assms(1) obtain p m where d: "d = Deallocate p m"
    by (cases d) simp_all
  from assms(1) Cons d have pm: "p = mem" "m = n"
    and a: "alternating ds (deallocate mem n (snd (allocate n hint mem [])))"
    by (auto simp: allocate_empty)
  from assms(3) Cons have s: "\<forall>c\<in>set ds. request_size c < max S_capacity n"
    by (simp add: default_region_size_def)
  from idle_run [OF a first_cycle(2) [OF assms(2)] s] Cons d pm show ?thesis
    by simp
qed

theorem churn_one_region_witness:
  "alternating [Allocate 5000 0 4096, Deallocate 4096 5000, Allocate 4999 0 12288,
                Deallocate 4096 4999, Allocate 100 4096 20480] []
   \<and> max default_region_size 5000 = 5000
   \<and> length (fst (run [Allocate 5000 0 4096, Deallocate 4096 5000, Allocate 4999 0 12288,
                Deallocate 4096 4999, Allocate 100 4096 20480] ([], []))) = 1"
  using churn_one_region [of 5000 0 4096 "[Deallocate 4096 5000, Allocate 4999 0 12288,
                Deallocate 4096 4999, Allocate 100 4096 20480]"]
  by (simp add: allocate_def deallocate_def find_region_fitting_def fits_def Region_top_def
      Region_end_def Region_data_def Region_new_def Region_ref_def Region_resize_def
      Region_unref_def Region_unused_def Region_clear_def S_capacity_def
      default_region_size_def fresh_block_def)

text \<open>
  The claim as stated lets the live set fill the capacity of the Region. A request
  of exactly 4096 bytes gets a Region of 4096 bytes; after it is freed the Region
  is empty, but the strict test \<open>top () + n < end ()\<close> rejects the next request of
  4096 bytes, and a second Region is constructed.
\<close>

theorem churn_full_region_counterexample:
  "alternating [Allocate 4096 0 4096, Deallocate 4096 4096, Allocate 4096 0 12288] []
   \<and> well_formed [Allocate 4096 0 4096, Deallocate 4096 4096, Allocate 4096 0 12288] ([], [])
   \<and> run [Allocate 4096 0 4096] ([], [])
       = ([\<lparr>M_capacity = 4096, M_data = 4096, M_size = 4096, M_ref_count = 1\<rparr>],
          [(4096, 4096)])
   \<and> run [Allocate 4096 0 4096, Deallocate 4096 4096] ([], [])
       = ([\<lparr>M_capacity = 4096, M_data = 4096, M_size = 0, M_ref_count = 0\<rparr>], [])
   \<and> run [Allocate 4096 0 4096, Deallocate 4096 4096, Allocate 4096 0 12288] ([], [])
       = ([\<lparr>M_capacity = 4096, M_data = 4096, M_size = 0, M_ref_count = 0\<rparr>,
           \<lparr>M_capacity = 4096, M_data = 12288, M_size = 4096, M_ref_count = 1\<rparr>],
          [(12288, 4096)])"
  by (simp add: allocate_def deallocate_def find_region_fitting_def fits_def Region_top_def
      Region_end_def Region_data_def Region_new_def Region_ref_def Region_resize_def
      Region_unref_def Region_unused_def Region_clear_def S_capacity_def fresh_block_def
      apart_def)

section \<open>The invariant of the engine is kept\<close>

subsection \<open>Regions in natural numbers\<close>

lemma region_ok_bounds:
  assumes "region_ok r"
  shows "0 < unat (M_data r)" "0 < unat (M_capacity r)"
    "unat (M_data r) + unat (M_capacity r) \<le> 2 ^ 63"
    "unat (M_size r) \<le> unat (M_capacity r)"
  using assms by (simp_all add: region_ok_def unat_gt_0 word_le_nat_alt)

lemma unat_add_small:
  fixes a b :: "64 word"
  assumes "unat a + unat b < 2 ^ 64"
  shows "unat (a + b) = unat a + unat b"
  using assms by (simp add: unat_add_lem [THEN iffD1])

lemma unat_top:
  assumes "region_ok r"
  shows "unat (Region_top r) = unat (M_data r) + unat (M_size r)"
  unfolding Region_top_def using region_ok_bounds [OF assms]
  by (intro unat_add_small) simp

lemma unat_end:
  assumes "region_ok r"
  shows "unat (Region_end r) = unat (M_data r) + unat (M_capacity r)"
  unfolding Region_end_def using region_ok_bounds [OF assms]
  by (intro unat_add_small) simp

lemma contains_nat:
  assumes "region_ok r"
  shows "(Region_data r \<le> p \<and> p < Region_top r) \<longleftrightarrow>
         (unat (M_data r) \<le> unat p \<and> unat p < unat (M_data r) + unat (M_size r))"
  by (simp add: word_le_nat_alt word_less_nat_alt unat_top [OF assms] Region_data_def)

lemma fits_nat:
  assumes "region_ok r" "unat n < 2 ^ 63"
  shows "fits n r \<longleftrightarrow> unat (M_size r) + unat n < unat (M_capacity r)"
proof -
  have "unat (Region_top r + n) = unat (Region_top r) + unat n"
    using region_ok_bounds [OF assms(1)] assms(2)
    by (intro unat_add_small) (simp add: unat_top [OF assms(1)])
  then show ?thesis
    by (simp add: fits_def word_less_nat_alt unat_top [OF assms(1)] unat_end [OF assms(1)])
qed

lemma unat_size_grow:
  assumes "region_ok r" "unat (M_size r) + unat n \<le> unat (M_capacity r)"
  shows "unat (M_size r + n) = unat (M_size r) + unat n"
  using region_ok_bounds [OF assms(1)] assms(2)
  by (intro unat_add_small) simp

text \<open>The test \<open>top () - n == p\<close> for a pointer of the Region.\<close>

lemma top_test_nat:
  assumes ok: "region_ok r"
    and p: "unat (M_data r) \<le> unat p" "unat p < unat (M_data r) + unat (M_size r)"
    and t: "Region_top r - n = p"
  shows "unat p + unat n = unat (M_data r) + unat (M_size r)"
    and "unat (M_size r - n) = unat p - unat (M_data r)"
proof -
  from t have n: "n = Region_top r - p" by (simp add: algebra_simps)
  have "p \<le> Region_top r" using p by (simp add: word_le_nat_alt unat_top [OF ok])
  then have "unat n = unat (Region_top r) - unat p"
    unfolding n by (rule unat_sub)
  then show "unat p + unat n = unat (M_data r) + unat (M_size r)"
    using p by (simp add: unat_top [OF ok])
  have "M_size r - n = p - M_data r"
    unfolding n Region_top_def by simp
  moreover have "M_data r \<le> p" using p by (simp add: word_le_nat_alt)
  ultimately show "unat (M_size r - n) = unat p - unat (M_data r)"
    by (simp add: unat_sub)
qed

text \<open>The second test of the in-place branch of \<open>reallocate\<close>, given the first.\<close>

lemma in_place_test_nat:
  assumes ok: "region_ok r"
    and p: "unat (M_data r) \<le> unat p" "unat p < unat (M_data r) + unat (M_size r)"
    and t: "Region_top r - from_n = p"
    and to: "unat to_n < 2 ^ 63"
  shows "Region_top r + (to_n - from_n) < Region_end r \<longleftrightarrow>
           unat p + unat to_n < unat (M_data r) + unat (M_capacity r)"
    and "unat p + unat to_n \<le> unat (M_data r) + unat (M_capacity r) \<Longrightarrow>
           unat (M_size r + (to_n - from_n)) = unat p - unat (M_data r) + unat to_n"
proof -
  have b: "unat p < 2 ^ 63"
    using p region_ok_bounds [OF ok] by simp
  have e: "Region_top r + (to_n - from_n) = p + to_n"
    using t by (simp add: algebra_simps)
  have "unat (p + to_n) = unat p + unat to_n"
    using b to by (intro unat_add_small) simp
  then show "Region_top r + (to_n - from_n) < Region_end r \<longleftrightarrow>
           unat p + unat to_n < unat (M_data r) + unat (M_capacity r)"
    by (simp add: e word_less_nat_alt unat_end [OF ok])
  assume le: "unat p + unat to_n \<le> unat (M_data r) + unat (M_capacity r)"
  have s: "M_size r + (to_n - from_n) = (p - M_data r) + to_n"
    using t by (simp add: Region_top_def algebra_simps)
  have d: "M_data r \<le> p" using p by (simp add: word_le_nat_alt)
  have "unat ((p - M_data r) + to_n) = unat (p - M_data r) + unat to_n"
    using b to by (intro unat_add_small) (simp add: unat_sub [OF d])
  then show "unat (M_size r + (to_n - from_n)) = unat p - unat (M_data r) + unat to_n"
    by (simp add: s unat_sub [OF d])
qed

subsection \<open>Lists\<close>

lemma length_filter_remove1:
  "x \<in> set xs \<Longrightarrow> P x \<Longrightarrow> Suc (length (filter P (remove1 x xs))) = length (filter P xs)"
  by (induction xs) auto

lemma length_filter_remove1_le:
  "length (filter P (remove1 x xs)) \<le> length (filter P xs)"
  by (induction xs) auto

lemma sorted_wrt_remove1:
  "sorted_wrt P xs \<Longrightarrow> sorted_wrt P (remove1 x xs)"
proof (induction xs)
  case Nil
  then show ?case by simp
next
  case (Cons y ys)
  then show ?case using set_remove1_subset [of x ys] by auto
qed

lemma sorted_wrt_remove1_rest:
  assumes "sorted_wrt P xs" "x \<in> set xs" "\<And>a b. P a b \<Longrightarrow> P b a"
  shows "\<forall>y\<in>set (remove1 x xs). P x y"
  using assms(1,2)
proof (induction xs)
  case Nil
  then show ?case by simp
next
  case (Cons y ys)
  show ?case
  proof (cases "x = y")
    case True
    with Cons.prems show ?thesis by simp
  next
    case False
    with Cons.prems have x: "x \<in> set ys" and s: "sorted_wrt P ys" by auto
    from Cons.prems x have "P y x" by auto
    then have "P x y" by (rule assms(3))
    with Cons.IH [OF s x] False show ?thesis by simp
  qed
qed

subsection \<open>Region lists\<close>

lemma apart_sym: "apart r q \<Longrightarrow> apart q r"
  by (auto simp: apart_def)

lemma regions_ok_nth:
  "regions_ok rs \<Longrightarrow> i < length rs \<Longrightarrow> region_ok (rs ! i)"
  by (simp add: regions_ok_def)

lemma regions_ok_apart:
  assumes "regions_ok rs" "i < length rs" "j < length rs" "i \<noteq> j"
  shows "apart (rs ! i) (rs ! j)"
proof (cases "i < j")
  case True
  with assms show ?thesis by (simp add: regions_ok_def sorted_wrt_iff_nth_less)
next
  case False
  with assms have "j < i" by simp
  with assms have "apart (rs ! j) (rs ! i)"
    by (simp add: regions_ok_def sorted_wrt_iff_nth_less)
  then show ?thesis by (rule apart_sym)
qed

lemma in_block_apart: "in_block r a \<Longrightarrow> in_block q a \<Longrightarrow> \<not> apart r q"
  by (auto simp: in_block_def apart_def)

lemma in_block_unique:
  assumes "regions_ok rs" "i < length rs" "j < length rs"
    "in_block (rs ! i) a" "in_block (rs ! j) a"
  shows "i = j"
  using regions_ok_apart [OF assms(1-3)] in_block_apart [OF assms(4,5)] by blast

lemma in_block_same:
  "M_data r' = M_data r \<Longrightarrow> M_capacity r' = M_capacity r \<Longrightarrow> in_block r' = in_block r"
  by (simp add: in_block_def fun_eq_iff)

lemma contains_in_block:
  assumes "region_ok r" "unat (M_data r) \<le> unat p" "unat p < unat (M_data r) + unat (M_size r)"
  shows "in_block r (p, n)"
  using assms region_ok_bounds [OF assms(1)] by (simp add: in_block_def)

lemma find_region_containing_nat:
  assumes "regions_ok rs"
  shows "find_region_containing p rs = Some i \<longleftrightarrow>
     i < length rs \<and> unat (M_data (rs ! i)) \<le> unat p
     \<and> unat p < unat (M_data (rs ! i)) + unat (M_size (rs ! i))"
proof
  assume f: "find_region_containing p rs = Some i"
  from find_region_containing_Some [OF f] have i: "i < length rs"
    and c: "Region_data (rs ! i) \<le> p \<and> p < Region_top (rs ! i)" by simp_all
  from c contains_nat [OF regions_ok_nth [OF assms i]] i
  show "i < length rs \<and> unat (M_data (rs ! i)) \<le> unat p
     \<and> unat p < unat (M_data (rs ! i)) + unat (M_size (rs ! i))" by simp
next
  assume a: "i < length rs \<and> unat (M_data (rs ! i)) \<le> unat p
     \<and> unat p < unat (M_data (rs ! i)) + unat (M_size (rs ! i))"
  then have i: "i < length rs" by simp
  from a contains_nat [OF regions_ok_nth [OF assms i]]
  have c: "Region_data (rs ! i) \<le> p \<and> p < Region_top (rs ! i)" by simp
  have "find_region_containing p rs \<noteq> None"
    using c i by (auto simp: find_region_containing_None)
  then obtain j where f: "find_region_containing p rs = Some j" by auto
  from find_region_containing_Some [OF f] have j: "j < length rs"
    and cj: "Region_data (rs ! j) \<le> p \<and> p < Region_top (rs ! j)" by simp_all
  from cj contains_nat [OF regions_ok_nth [OF assms j]]
  have "in_block (rs ! j) (p, 0)"
    by (intro contains_in_block regions_ok_nth [OF assms j]) simp_all
  moreover from a have "in_block (rs ! i) (p, 0)"
    by (intro contains_in_block regions_ok_nth [OF assms i]) simp_all
  ultimately have "i = j" using in_block_unique [OF assms i j] by blast
  with f show "find_region_containing p rs = Some i" by simp
qed

lemma find_region_containing_null:
  assumes "regions_ok rs"
  shows "find_region_containing 0 rs = None"
proof -
  have "\<not> (Region_data r \<le> 0 \<and> 0 < Region_top r)" if "r \<in> set rs" for r
  proof -
    from that assms have "region_ok r" by (simp add: regions_ok_def)
    then have "M_data r \<noteq> 0" by (simp add: region_ok_def)
    then show ?thesis by (simp add: Region_data_def)
  qed
  then show ?thesis by (simp add: find_region_containing_None)
qed

lemma sorted_wrt_apart_update:
  assumes "i < length rs" "M_data r' = M_data (rs ! i)" "M_capacity r' = M_capacity (rs ! i)"
  shows "sorted_wrt apart (rs[i := r']) = sorted_wrt apart rs"
proof -
  have "apart ((rs[i := r']) ! a) ((rs[i := r']) ! b) = apart (rs ! a) (rs ! b)"
    if "a < length rs" "b < length rs" for a b
    using that assms by (simp add: nth_list_update apart_def)
  then show ?thesis
    by (auto simp: sorted_wrt_iff_nth_less)
qed

lemma regions_ok_update:
  assumes "regions_ok rs" "i < length rs" "region_ok r'"
    "M_data r' = M_data (rs ! i)" "M_capacity r' = M_capacity (rs ! i)"
  shows "regions_ok (rs[i := r'])"
proof -
  have "\<forall>r\<in>set (rs[i := r']). region_ok r"
    using assms(1,3) set_update_subset_insert [of rs i r']
    by (auto simp: regions_ok_def)
  with assms show ?thesis
    by (simp add: regions_ok_def sorted_wrt_apart_update)
qed

lemma region_ok_resize:
  assumes "region_ok r" "unat x \<le> unat (M_capacity r)"
  shows "region_ok (r\<lparr>M_size := x, M_ref_count := c\<rparr>)"
  using assms by (simp add: region_ok_def word_le_nat_alt)

lemma regions_ok_append:
  assumes "regions_ok rs" "fresh_block mem cap rs" "cap \<noteq> 0" "x \<le> cap"
  shows "regions_ok (rs @ [\<lparr>M_capacity = cap, M_data = mem, M_size = x, M_ref_count = c\<rparr>])"
proof -
  let ?r = "\<lparr>M_capacity = cap, M_data = mem, M_size = x, M_ref_count = c\<rparr>"
  have "region_ok ?r" using assms(2-4) by (simp add: region_ok_def fresh_block_def)
  moreover have "apart q ?r" if "q \<in> set rs" for q
    using that assms(2) by (auto simp: fresh_block_def apart_def)
  ultimately show ?thesis
    using assms(1) by (simp add: regions_ok_def sorted_wrt_append)
qed

subsection \<open>One call\<close>

lemma engine_inv_nth:
  "engine_inv k (rs, live) \<longleftrightarrow>
     regions_ok rs
     \<and> (\<forall>a\<in>set live. \<exists>i<length rs. inside (rs ! i) a)
     \<and> sorted_wrt (\<lambda>a b. \<not> overlap a b) live
     \<and> (\<forall>i<length rs. length (filter (in_block (rs ! i)) live) \<le> unat (M_ref_count (rs ! i))
            \<and> unat (M_ref_count (rs ! i)) \<le> k)"
proof -
  have ex: "(\<exists>r\<in>set rs. P r) \<longleftrightarrow> (\<exists>i<length rs. P (rs ! i))" for P
    by (metis in_set_conv_nth)
  show ?thesis
    unfolding engine_inv_def fst_conv snd_conv ex all_set_conv_all_nth [of rs] regions_ok_def
    by blast
qed

lemma overlap_iff:
  "overlap a b \<longleftrightarrow>
     (\<exists>x. unat (fst a) \<le> x \<and> x < unat (fst a) + unat (snd a)
          \<and> unat (fst b) \<le> x \<and> x < unat (fst b) + unat (snd b))"
proof
  assume "overlap a b"
  then show "\<exists>x. unat (fst a) \<le> x \<and> x < unat (fst a) + unat (snd a)
          \<and> unat (fst b) \<le> x \<and> x < unat (fst b) + unat (snd b)"
    by (intro exI [of _ "max (unat (fst a)) (unat (fst b))"]) (simp add: overlap_def)
next
  assume "\<exists>x. unat (fst a) \<le> x \<and> x < unat (fst a) + unat (snd a)
          \<and> unat (fst b) \<le> x \<and> x < unat (fst b) + unat (snd b)"
  then show "overlap a b" by (auto simp: overlap_def)
qed

lemma inside_in_block: "inside r a \<Longrightarrow> in_block r a"
  by (simp add: inside_def)

lemma overlap_empty: "snd a = 0 \<Longrightarrow> \<not> overlap b a"
  by (simp add: overlap_def)

lemma overlap_below:
  "snd a \<noteq> 0 \<longrightarrow> unat (fst a) + unat (snd a) \<le> unat p \<Longrightarrow> \<not> overlap (p, n) a"
  by (cases "snd a = 0") (auto simp: overlap_def)

lemma overlap_apart:
  assumes "apart r q" "inside r a" "inside q b"
    "unat (M_size r) \<le> unat (M_capacity r)" "unat (M_size q) \<le> unat (M_capacity q)"
  shows "\<not> overlap a b"
proof (cases "snd a = 0 \<or> snd b = 0")
  case True
  then show ?thesis by (auto simp: overlap_def)
next
  case False
  with assms show ?thesis
    by (auto simp: overlap_def apart_def inside_def in_block_def)
qed

lemma overlap_sym: "\<not> overlap a b \<Longrightarrow> \<not> overlap b a"
  by (simp add: overlap_def max.commute min.commute)

lemma engine_inv_update:
  assumes inv: "engine_inv k (rs, live)" and i: "i < length rs"
    and blk: "M_data r' = M_data (rs ! i)" "M_capacity r' = M_capacity (rs ! i)"
    and sz: "M_size r' \<le> M_capacity r'"
    and a: "\<forall>a\<in>set live'. inside r' a \<or> (\<exists>j<length rs. j \<noteq> i \<and> inside (rs ! j) a)"
    and b: "sorted_wrt (\<lambda>a b. \<not> overlap a b) live'"
    and c: "length (filter (in_block (rs ! i)) live') \<le> unat (M_ref_count r')"
      "unat (M_ref_count r') \<le> k'"
    and d: "\<forall>j<length rs. j \<noteq> i \<longrightarrow>
      length (filter (in_block (rs ! j)) live') \<le> length (filter (in_block (rs ! j)) live)"
    and k: "k \<le> k'"
  shows "engine_inv k' (rs[i := r'], live')"
proof -
  from inv have ok: "regions_ok rs" by (simp add: engine_inv_nth)
  have "region_ok r'"
    using regions_ok_nth [OF ok i] blk sz by (simp add: region_ok_def)
  then have 1: "regions_ok (rs[i := r'])"
    using ok i blk by (intro regions_ok_update)
  have 2: "\<exists>j<length (rs[i := r']). inside ((rs[i := r']) ! j) x" if "x \<in> set live'" for x
  proof -
    from a that consider "inside r' x" | j where "j < length rs" "j \<noteq> i" "inside (rs ! j) x"
      by blast
    then show ?thesis
    proof cases
      case 1
      with i show ?thesis by (intro exI [of _ i]) simp
    next
      case 2
      then show ?thesis by (intro exI [of _ j]) simp
    qed
  qed
  have 4: "length (filter (in_block ((rs[i := r']) ! j)) live') \<le> unat (M_ref_count ((rs[i := r']) ! j))
      \<and> unat (M_ref_count ((rs[i := r']) ! j)) \<le> k'" if "j < length rs" for j
  proof (cases "j = i")
    case True
    with i c in_block_same [OF blk] show ?thesis by simp
  next
    case False
    from inv that have "length (filter (in_block (rs ! j)) live) \<le> unat (M_ref_count (rs ! j))"
      "unat (M_ref_count (rs ! j)) \<le> k"
      by (simp_all add: engine_inv_nth)
    with False d that k show ?thesis by fastforce
  qed
  from 1 2 b 4 show ?thesis by (simp add: engine_inv_nth)
qed

lemma unat_ref_Suc:
  fixes c :: "32 word"
  assumes "unat c < 2 ^ 32 - 1"
  shows "unat (c + 1) = Suc (unat c)"
  using assms by (simp add: unat_add_lem [THEN iffD1])

lemma engine_inv_bump:
  assumes inv: "engine_inv k (rs, live)" and k: "k < 2 ^ 32 - 1" and i: "i < length rs"
    and room: "unat (M_size (rs ! i)) + unat n \<le> unat (M_capacity (rs ! i))"
      "unat (M_size (rs ! i)) < unat (M_capacity (rs ! i))"
  shows "engine_inv (Suc k)
    (rs[i := Region_ref (Region_resize n (rs ! i))], (Region_top (rs ! i), n) # live)"
proof -
  let ?r = "rs ! i"
  let ?r' = "Region_ref (Region_resize n ?r)"
  let ?p = "Region_top ?r"
  from inv have oks: "regions_ok rs" by (simp add: engine_inv_nth)
  have ok: "region_ok ?r" by (rule regions_ok_nth [OF oks i])
  note bounds = region_ok_bounds [OF ok]
  have p: "unat ?p = unat (M_data ?r) + unat (M_size ?r)" by (rule unat_top [OF ok])
  have s': "unat (M_size ?r') = unat (M_size ?r) + unat n"
    using unat_size_grow [OF ok room(1)] by (simp add: Region_ref_def Region_resize_def)
  have blk: "M_data ?r' = M_data ?r" "M_capacity ?r' = M_capacity ?r"
    by (simp_all add: Region_ref_def Region_resize_def)
  have sz: "M_size ?r' \<le> M_capacity ?r'"
    using s' room(1) blk by (simp add: word_le_nat_alt)
  have new_in: "in_block ?r (?p, n)"
    using p room(2) by (simp add: in_block_def)
  have new_inside: "inside ?r' (?p, n)"
    using new_in p s' blk in_block_same [OF blk] by (simp add: inside_def)
  have old: "\<exists>j<length rs. inside (rs ! j) x" if "x \<in> set live" for x
    using inv that by (simp add: engine_inv_nth)
  have a: "\<forall>x\<in>set ((?p, n) # live). inside ?r' x \<or> (\<exists>j<length rs. j \<noteq> i \<and> inside (rs ! j) x)"
  proof
    fix x assume "x \<in> set ((?p, n) # live)"
    then consider "x = (?p, n)" | "x \<in> set live" by auto
    then show "inside ?r' x \<or> (\<exists>j<length rs. j \<noteq> i \<and> inside (rs ! j) x)"
    proof cases
      case 1
      with new_inside show ?thesis by simp
    next
      case 2
      from old [OF 2] obtain j where j: "j < length rs" "inside (rs ! j) x" by blast
      show ?thesis
      proof (cases "j = i")
        case True
        with j have "inside ?r x" by simp
        then have "inside ?r' x"
          using s' blk in_block_same [OF blk] by (auto simp: inside_def)
        then show ?thesis by simp
      next
        case False
        with j show ?thesis by blast
      qed
    qed
  qed
  have no: "\<not> overlap (?p, n) x" if "x \<in> set live" for x
  proof -
    from old [OF that] obtain j where j: "j < length rs" "inside (rs ! j) x" by blast
    show ?thesis
    proof (cases "j = i")
      case True
      with j have "inside ?r x" by simp
      then have "snd x \<noteq> 0 \<longrightarrow> unat (fst x) + unat (snd x) \<le> unat ?p"
        by (simp add: inside_def p)
      then show ?thesis by (rule overlap_below)
    next
      case False
      have ap: "apart ?r' (rs ! j)"
        using regions_ok_apart [OF oks i j(1)] False blk by (simp add: apart_def)
      have "unat (M_size (rs ! j)) \<le> unat (M_capacity (rs ! j))"
        using region_ok_bounds [OF regions_ok_nth [OF oks j(1)]] by simp
      moreover have "unat (M_size ?r') \<le> unat (M_capacity ?r')"
        using sz by (simp add: word_le_nat_alt)
      ultimately show ?thesis
        using overlap_apart [OF ap new_inside j(2)] by simp
    qed
  qed
  have b: "sorted_wrt (\<lambda>a b. \<not> overlap a b) ((?p, n) # live)"
    using inv no by (simp add: engine_inv_nth)
  have refs: "length (filter (in_block ?r) live) \<le> unat (M_ref_count ?r)"
    "unat (M_ref_count ?r) \<le> k"
    using inv i by (simp_all add: engine_inv_nth)
  have r': "unat (M_ref_count ?r') = Suc (unat (M_ref_count ?r))"
    using unat_ref_Suc [of "M_ref_count ?r"] refs(2) k
    by (simp add: Region_ref_def Region_resize_def)
  have c: "length (filter (in_block ?r) ((?p, n) # live)) \<le> unat (M_ref_count ?r')"
    "unat (M_ref_count ?r') \<le> Suc k"
    using refs r' by simp_all
  have d: "\<forall>j<length rs. j \<noteq> i \<longrightarrow>
      length (filter (in_block (rs ! j)) ((?p, n) # live)) \<le> length (filter (in_block (rs ! j)) live)"
  proof (intro allI impI)
    fix j assume j: "j < length rs" "j \<noteq> i"
    have "\<not> in_block (rs ! j) (?p, n)"
      using in_block_unique [OF oks i j(1) new_in] j(2) by blast
    then show "length (filter (in_block (rs ! j)) ((?p, n) # live))
        \<le> length (filter (in_block (rs ! j)) live)" by simp
  qed
  show ?thesis
    by (rule engine_inv_update [OF inv i blk sz a b c d]) simp
qed

lemma deallocate_found:
  assumes "find_region_containing p rs = Some i"
  shows "deallocate p n rs =
          rs[i := (rs ! i)\<lparr>M_ref_count := M_ref_count (rs ! i) - 1,
                           M_size := (if M_ref_count (rs ! i) - 1 = 0 then 0
                                      else if Region_top (rs ! i) - n = p
                                           then M_size (rs ! i) - n
                                      else M_size (rs ! i))\<rparr>]"
proof -
  have eq: "\<And>r r'. r = r' \<Longrightarrow> rs[i := r] = rs[i := r']" by simp
  show ?thesis
    using assms
    by (auto simp: deallocate_def Let_def Region_unref_def Region_unused_def Region_clear_def
        Region_top_def Region_resize_def intro!: eq)
qed

lemma engine_inv_append:
  assumes inv: "engine_inv k (rs, live)" and f: "fresh_block mem cap rs" and c: "cap \<noteq> 0"
  shows "engine_inv k
    (rs @ [\<lparr>M_capacity = cap, M_data = mem, M_size = 0, M_ref_count = 0\<rparr>], live)"
proof -
  let ?r = "\<lparr>M_capacity = cap, M_data = mem, M_size = 0, M_ref_count = 0\<rparr>"
  from inv have oks: "regions_ok rs" by (simp add: engine_inv_nth)
  have 1: "regions_ok (rs @ [?r])"
    using oks f c by (intro regions_ok_append) simp_all
  have old: "\<exists>j<length rs. inside (rs ! j) x" if "x \<in> set live" for x
    using inv that by (simp add: engine_inv_nth)
  have 2: "\<exists>j<length (rs @ [?r]). inside ((rs @ [?r]) ! j) x" if "x \<in> set live" for x
  proof -
    from old [OF that] obtain j where "j < length rs" "inside (rs ! j) x" by blast
    then show ?thesis by (intro exI [of _ j]) (simp add: nth_append)
  qed
  have "\<not> in_block ?r x" if "x \<in> set live" for x
  proof -
    from old [OF that] obtain j where j: "j < length rs" "inside (rs ! j) x" by blast
    from f j(1) have "apart ?r (rs ! j)" by (simp add: fresh_block_def)
    with inside_in_block [OF j(2)] show ?thesis using in_block_apart by blast
  qed
  then have e: "filter (in_block ?r) live = []" by (simp add: filter_empty_conv)
  have 4: "length (filter (in_block ((rs @ [?r]) ! j)) live) \<le> unat (M_ref_count ((rs @ [?r]) ! j))
      \<and> unat (M_ref_count ((rs @ [?r]) ! j)) \<le> k" if "j < length (rs @ [?r])" for j
  proof (cases "j < length rs")
    case True
    with inv show ?thesis by (simp add: engine_inv_nth nth_append)
  next
    case False
    with that have "j = length rs" by simp
    with e show ?thesis by simp
  qed
  from inv have 3: "sorted_wrt (\<lambda>a b. \<not> overlap a b) live" by (simp add: engine_inv_nth)
  from 1 2 3 4 show ?thesis unfolding engine_inv_nth by blast
qed

lemma unat_max: "unat (max a b) = max (unat a) (unat b)"
  by (simp add: max_def word_le_nat_alt)

lemma engine_inv_allocate:
  assumes inv: "engine_inv k (rs, live)" and k: "k < 2 ^ 32 - 1"
    and req: "request_ok (Allocate n hint mem) rs"
  shows "engine_inv (Suc k) (snd (allocate n hint mem rs), (fst (allocate n hint mem rs), n) # live)"
proof (cases "find_region_fitting n hint rs")
  case None
  let ?r = "\<lparr>M_capacity = max S_capacity n, M_data = mem, M_size = 0, M_ref_count = 0\<rparr>"
  let ?rs = "rs @ [?r]"
  from None req have f: "fresh_block mem (max S_capacity n) rs" by simp
  have "0 < unat (max S_capacity n)"
    by (simp add: unat_max S_capacity_def less_max_iff_disj)
  then have c: "max S_capacity n \<noteq> 0"
    by (simp add: unat_gt_0)
  have inv1: "engine_inv k (?rs, live)" by (rule engine_inv_append [OF inv f c])
  have i: "length rs < length ?rs" by simp
  have n: "?rs ! length rs = ?r" by simp
  have room: "unat (M_size (?rs ! length rs)) + unat n \<le> unat (M_capacity (?rs ! length rs))"
    "unat (M_size (?rs ! length rs)) < unat (M_capacity (?rs ! length rs))"
    unfolding n by (simp_all add: unat_max S_capacity_def)
  have a: "allocate n hint mem rs =
    (Region_top (?rs ! length rs), ?rs[length rs := Region_ref (Region_resize n (?rs ! length rs))])"
    using None by (simp add: allocate_def Region_new_def)
  from engine_inv_bump [OF inv1 k i room] show ?thesis
    unfolding a fst_conv snd_conv .
next
  case (Some i)
  from inv have oks: "regions_ok rs" by (simp add: engine_inv_nth)
  from find_region_fitting_Some [OF Some] have i: "i < length rs" and f: "fits n (rs ! i)"
    by simp_all
  from req have "unat n < 2 ^ 63" by simp
  with f fits_nat [OF regions_ok_nth [OF oks i]]
  have "unat (M_size (rs ! i)) + unat n < unat (M_capacity (rs ! i))" by simp
  then have room: "unat (M_size (rs ! i)) + unat n \<le> unat (M_capacity (rs ! i))"
    "unat (M_size (rs ! i)) < unat (M_capacity (rs ! i))" by simp_all
  from engine_inv_bump [OF inv k i room] show ?thesis
    by (simp add: allocate_fitting [OF Some])
qed

lemma engine_inv_remove1:
  assumes "engine_inv k (rs, live)"
  shows "engine_inv k (rs, remove1 a live)"
proof -
  have "\<forall>i<length rs. length (filter (in_block (rs ! i)) (remove1 a live)) \<le> unat (M_ref_count (rs ! i))
            \<and> unat (M_ref_count (rs ! i)) \<le> k"
  proof (intro allI impI)
    fix i assume "i < length rs"
    with assms have "length (filter (in_block (rs ! i)) live) \<le> unat (M_ref_count (rs ! i))"
      "unat (M_ref_count (rs ! i)) \<le> k" by (simp_all add: engine_inv_nth)
    with length_filter_remove1_le [of "in_block (rs ! i)" a live]
    show "length (filter (in_block (rs ! i)) (remove1 a live)) \<le> unat (M_ref_count (rs ! i))
            \<and> unat (M_ref_count (rs ! i)) \<le> k" by simp
  qed
  moreover have "\<forall>x\<in>set (remove1 a live). \<exists>i<length rs. inside (rs ! i) x"
    using assms set_remove1_subset [of a live] by (auto simp: engine_inv_nth)
  ultimately show ?thesis
    using assms by (simp add: engine_inv_nth sorted_wrt_remove1)
qed

lemma overlap_above:
  assumes no: "\<not> overlap (p, n) a" and n: "unat n \<noteq> 0" and a: "snd a \<noteq> 0"
    and le: "unat (fst a) + unat (snd a) \<le> unat p + unat n"
  shows "unat (fst a) + unat (snd a) \<le> unat p"
proof -
  have "0 < unat (snd a)" using a by (simp add: unat_gt_0)
  with no n le show ?thesis
    by (simp add: overlap_def max_def min_def split: if_splits)
qed

lemma engine_inv_deallocate:
  assumes inv: "engine_inv k (rs, live)" and own: "(p, n) \<in> set live"
  shows "engine_inv k (deallocate p n rs, remove1 (p, n) live)"
proof (cases "find_region_containing p rs")
  case None
  then show ?thesis
    using engine_inv_remove1 [OF inv] by (simp add: deallocate_def)
next
  case (Some i)
  let ?r = "rs ! i"
  let ?live' = "remove1 (p, n) live"
  let ?r' = "?r\<lparr>M_ref_count := M_ref_count ?r - 1,
                 M_size := (if M_ref_count ?r - 1 = 0 then 0
                            else if Region_top ?r - n = p then M_size ?r - n
                            else M_size ?r)\<rparr>"
  from inv have oks: "regions_ok rs" by (simp add: engine_inv_nth)
  from Some find_region_containing_nat [OF oks] have i: "i < length rs"
    and p: "unat (M_data ?r) \<le> unat p" "unat p < unat (M_data ?r) + unat (M_size ?r)"
    by simp_all
  have ok: "region_ok ?r" by (rule regions_ok_nth [OF oks i])
  note bounds = region_ok_bounds [OF ok]
  have inb: "in_block ?r (p, n)" by (rule contains_in_block [OF ok p])
  have cnt: "Suc (length (filter (in_block ?r) ?live')) = length (filter (in_block ?r) live)"
    using own inb by (rule length_filter_remove1 [of "(p, n)" live "in_block ?r"])
  have refs: "length (filter (in_block ?r) live) \<le> unat (M_ref_count ?r)"
    "unat (M_ref_count ?r) \<le> k"
    using inv i by (simp_all add: engine_inv_nth)
  have nz: "M_ref_count ?r \<noteq> 0"
    using cnt refs(1) by (auto simp: unat_gt_0 [symmetric])
  have ref': "Suc (unat (M_ref_count ?r - 1)) = unat (M_ref_count ?r)"
    using nz by (simp add: unat_minus_one unat_gt_0)
  have others: "\<not> overlap (p, n) x" if "x \<in> set ?live'" for x
  proof -
    from inv have "sorted_wrt (\<lambda>a b. \<not> overlap a b) live" by (simp add: engine_inv_nth)
    from sorted_wrt_remove1_rest [OF this own] overlap_sym that show ?thesis by blast
  qed
  have old: "\<exists>j<length rs. inside (rs ! j) x" if "x \<in> set ?live'" for x
    using inv that set_remove1_subset [of "(p, n)" live] by (auto simp: engine_inv_nth)
  have blk: "M_data ?r' = M_data ?r" "M_capacity ?r' = M_capacity ?r" by simp_all
  have sz: "M_size ?r' \<le> M_capacity ?r'"
  proof (cases "M_ref_count ?r - 1 \<noteq> 0 \<and> Region_top ?r - n = p")
    case True
    then have t: "Region_top ?r - n = p" by simp
    from top_test_nat(2) [OF ok p t] p bounds True show ?thesis
      by (simp add: word_le_nat_alt)
  next
    case False
    with bounds show ?thesis by (auto simp: word_le_nat_alt)
  qed
  have a: "\<forall>x\<in>set ?live'. inside ?r' x \<or> (\<exists>j<length rs. j \<noteq> i \<and> inside (rs ! j) x)"
  proof
    fix x assume x: "x \<in> set ?live'"
    from old [OF x] obtain j where j: "j < length rs" "inside (rs ! j) x" by blast
    show "inside ?r' x \<or> (\<exists>j<length rs. j \<noteq> i \<and> inside (rs ! j) x)"
    proof (cases "j = i")
      case False
      with j show ?thesis by blast
    next
      case True
      with j have ins: "inside ?r x" by simp
      then have xb: "in_block ?r x" by (rule inside_in_block)
      have "inside ?r' x"
      proof (cases "M_ref_count ?r - 1 = 0")
        case True
        with ref' have "unat (M_ref_count ?r) = 1" by simp
        with refs(1) cnt have "length (filter (in_block ?r) ?live') = 0" by linarith
        then have "filter (in_block ?r) ?live' = []" by simp
        with x xb show ?thesis by (simp add: filter_empty_conv)
      next
        case nonzero: False
        show ?thesis
        proof (cases "Region_top ?r - n = p")
          case False
          with nonzero ins show ?thesis by (simp add: inside_def in_block_def)
        next
          case True
          note t = top_test_nat [OF ok p True]
          have n0: "unat n \<noteq> 0" using t(1) p by simp
          have "unat (fst x) + unat (snd x) \<le> unat p" if s: "snd x \<noteq> 0"
          proof -
            from ins s have "unat (fst x) + unat (snd x) \<le> unat p + unat n"
              by (simp add: inside_def t(1))
            from overlap_above [OF others [OF x] n0 s this] show ?thesis .
          qed
          with nonzero True t(2) p ins show ?thesis
            by (simp add: inside_def in_block_def)
        qed
      qed
      then show ?thesis by simp
    qed
  qed
  have b: "sorted_wrt (\<lambda>a b. \<not> overlap a b) ?live'"
    using inv by (simp add: engine_inv_nth sorted_wrt_remove1)
  have c: "length (filter (in_block ?r) ?live') \<le> unat (M_ref_count ?r')"
    "unat (M_ref_count ?r') \<le> k"
    using cnt refs ref' by simp_all
  have d: "\<forall>j<length rs. j \<noteq> i \<longrightarrow>
      length (filter (in_block (rs ! j)) ?live') \<le> length (filter (in_block (rs ! j)) live)"
    by (simp add: length_filter_remove1_le)
  have "engine_inv k (rs[i := ?r'], ?live')"
    by (rule engine_inv_update [OF inv i blk sz a b c d]) simp
  then show ?thesis by (simp add: deallocate_found [OF Some])
qed

lemma engine_inv_mono: "engine_inv k s \<Longrightarrow> k \<le> k' \<Longrightarrow> engine_inv k' s"
  by (fastforce simp: engine_inv_def)

lemma in_block_fst: "in_block r (p, n) = in_block r (p, m)"
  by (simp add: in_block_def)

lemma overlap_shrink:
  assumes "\<not> overlap (p, n) x" "unat m \<le> unat n"
  shows "\<not> overlap (p, m) x"
  using assms by (auto simp: overlap_def)

text \<open>A live allocation of Region \<open>i\<close> is replaced by one at the same address.\<close>

lemma engine_inv_replace:
  assumes inv: "engine_inv k (rs, live)" and i: "i < length rs"
    and own: "(p, from_n) \<in> set live" and inb: "in_block (rs ! i) (p, from_n)"
    and sz: "s' \<le> M_capacity (rs ! i)"
    and new: "inside ((rs ! i)\<lparr>M_size := s'\<rparr>) (p, to_n)"
    and keep: "\<forall>x\<in>set (remove1 (p, from_n) live). inside (rs ! i) x \<longrightarrow>
        inside ((rs ! i)\<lparr>M_size := s'\<rparr>) x \<and> \<not> overlap (p, to_n) x"
  shows "engine_inv k (rs[i := (rs ! i)\<lparr>M_size := s'\<rparr>], (p, to_n) # remove1 (p, from_n) live)"
proof -
  let ?r = "rs ! i"
  let ?r' = "?r\<lparr>M_size := s'\<rparr>"
  let ?rest = "remove1 (p, from_n) live"
  from inv have oks: "regions_ok rs" by (simp add: engine_inv_nth)
  have blk: "M_data ?r' = M_data ?r" "M_capacity ?r' = M_capacity ?r" by simp_all
  have sz': "M_size ?r' \<le> M_capacity ?r'" using sz by simp
  have old: "\<exists>j<length rs. inside (rs ! j) x" if "x \<in> set ?rest" for x
    using inv that set_remove1_subset [of "(p, from_n)" live] by (auto simp: engine_inv_nth)
  have a: "\<forall>x\<in>set ((p, to_n) # ?rest).
      inside ?r' x \<or> (\<exists>j<length rs. j \<noteq> i \<and> inside (rs ! j) x)"
  proof
    fix x assume "x \<in> set ((p, to_n) # ?rest)"
    then consider "x = (p, to_n)" | "x \<in> set ?rest" by auto
    then show "inside ?r' x \<or> (\<exists>j<length rs. j \<noteq> i \<and> inside (rs ! j) x)"
    proof cases
      case 1
      with new show ?thesis by simp
    next
      case 2
      from old [OF 2] obtain j where j: "j < length rs" "inside (rs ! j) x" by blast
      show ?thesis
      proof (cases "j = i")
        case True
        with j keep 2 show ?thesis by blast
      next
        case False
        with j show ?thesis by blast
      qed
    qed
  qed
  have no: "\<not> overlap (p, to_n) x" if x: "x \<in> set ?rest" for x
  proof -
    from old [OF x] obtain j where j: "j < length rs" "inside (rs ! j) x" by blast
    show ?thesis
    proof (cases "j = i")
      case True
      with j keep x show ?thesis by blast
    next
      case False
      have ap: "apart ?r' (rs ! j)"
        using regions_ok_apart [OF oks i j(1)] False by (simp add: apart_def)
      have "unat (M_size (rs ! j)) \<le> unat (M_capacity (rs ! j))"
        using region_ok_bounds [OF regions_ok_nth [OF oks j(1)]] by simp
      moreover have "unat (M_size ?r') \<le> unat (M_capacity ?r')"
        using sz by (simp add: word_le_nat_alt)
      ultimately show ?thesis
        using overlap_apart [OF ap new j(2)] by simp
    qed
  qed
  have b: "sorted_wrt (\<lambda>a b. \<not> overlap a b) ((p, to_n) # ?rest)"
    using inv no by (simp add: engine_inv_nth sorted_wrt_remove1)
  have cnt: "Suc (length (filter (in_block ?r) ?rest)) = length (filter (in_block ?r) live)"
    using own inb by (rule length_filter_remove1 [of "(p, from_n)" live "in_block ?r"])
  have refs: "length (filter (in_block ?r) live) \<le> unat (M_ref_count ?r)"
    "unat (M_ref_count ?r) \<le> k"
    using inv i by (simp_all add: engine_inv_nth)
  have inb': "in_block ?r (p, to_n)" using inb in_block_fst by blast
  have c: "length (filter (in_block ?r) ((p, to_n) # ?rest)) \<le> unat (M_ref_count ?r')"
    "unat (M_ref_count ?r') \<le> k"
    using cnt refs inb' by simp_all
  have d: "\<forall>j<length rs. j \<noteq> i \<longrightarrow>
      length (filter (in_block (rs ! j)) ((p, to_n) # ?rest))
        \<le> length (filter (in_block (rs ! j)) live)"
  proof (intro allI impI)
    fix j assume j: "j < length rs" "j \<noteq> i"
    have "\<not> in_block (rs ! j) (p, to_n)"
      using in_block_unique [OF oks i j(1) inb'] j(2) by blast
    then show "length (filter (in_block (rs ! j)) ((p, to_n) # ?rest))
        \<le> length (filter (in_block (rs ! j)) live)"
      by (simp add: length_filter_remove1_le)
  qed
  show ?thesis
    by (rule engine_inv_update [OF inv i blk sz' a b c d]) simp
qed

lemma reallocate_found:
  assumes "p \<noteq> 0" "find_region_containing p rs = Some i" "to_n \<noteq> 0"
  shows "reallocate p from_n to_n hint mem rs =
    (if Region_top (rs ! i) - from_n = p
        \<and> Region_top (rs ! i) + (to_n - from_n) < Region_end (rs ! i)
     then (p, rs[i := (rs ! i)\<lparr>M_size := M_size (rs ! i) + (to_n - from_n)\<rparr>])
     else if to_n \<le> from_n then (p, rs)
     else (fst (allocate to_n hint mem rs),
           deallocate p from_n (snd (allocate to_n hint mem rs))))"
  using assms by (simp add: reallocate_def Let_def split_beta Region_resize_def)

lemma engine_inv_reallocate:
  assumes inv: "engine_inv k (rs, live)" and k: "k < 2 ^ 32 - 1"
    and own: "p = 0 \<or> (p, from_n) \<in> set live"
    and req: "request_ok (Reallocate p from_n to_n hint mem) rs"
  shows "engine_inv (Suc k) (step (Reallocate p from_n to_n hint mem) (rs, live))"
proof (cases "p = 0")
  case True
  from req have "request_ok (Allocate to_n hint mem) rs" by simp
  from engine_inv_allocate [OF inv k this] True show ?thesis
    by (simp add: reallocate_def)
next
  case pnz: False
  with own have own: "(p, from_n) \<in> set live" by simp
  from inv have oks: "regions_ok rs" by (simp add: engine_inv_nth)
  show ?thesis
  proof (cases "find_region_containing p rs")
    case None
    with pnz engine_inv_mono [OF inv, of "Suc k"] show ?thesis
      by (simp add: reallocate_def)
  next
    case (Some i)
    let ?r = "rs ! i"
    from Some find_region_containing_nat [OF oks] have i: "i < length rs"
      and p: "unat (M_data ?r) \<le> unat p" "unat p < unat (M_data ?r) + unat (M_size ?r)"
      by simp_all
    have ok: "region_ok ?r" by (rule regions_ok_nth [OF oks i])
    note bounds = region_ok_bounds [OF ok]
    have inb: "in_block ?r (p, from_n)" by (rule contains_in_block [OF ok p])
    from req have to: "unat to_n < 2 ^ 63" by simp
    have others: "\<not> overlap (p, from_n) x" if "x \<in> set (remove1 (p, from_n) live)" for x
    proof -
      from inv have "sorted_wrt (\<lambda>a b. \<not> overlap a b) live" by (simp add: engine_inv_nth)
      from sorted_wrt_remove1_rest [OF this own] overlap_sym that show ?thesis by blast
    qed
    from inv own obtain j where j: "j < length rs" "inside (rs ! j) (p, from_n)"
      by (auto simp: engine_inv_nth)
    from in_block_unique [OF oks i j(1) inb inside_in_block [OF j(2)]] j(2)
    have ins: "inside ?r (p, from_n)" by simp
    show ?thesis
    proof (cases "to_n = 0")
      case True
      with pnz Some engine_inv_mono [OF engine_inv_deallocate [OF inv own], of "Suc k"]
      show ?thesis by (simp add: reallocate_def)
    next
      case tnz: False
      show ?thesis
      proof (cases "Region_top ?r - from_n = p
          \<and> Region_top ?r + (to_n - from_n) < Region_end ?r")
        case True
        then have t: "Region_top ?r - from_n = p" by simp
        note tt = top_test_nat [OF ok p t]
        note ip = in_place_test_nat [OF ok p t to]
        from True ip(1) have lt: "unat p + unat to_n < unat (M_data ?r) + unat (M_capacity ?r)"
          by simp
        then have s': "unat (M_size ?r + (to_n - from_n)) = unat p - unat (M_data ?r) + unat to_n"
          by (intro ip(2)) simp
        have f0: "unat from_n \<noteq> 0" using tt(1) p by simp
        have sz: "M_size ?r + (to_n - from_n) \<le> M_capacity ?r"
          using s' lt p by (simp add: word_le_nat_alt)
        have new: "inside (?r\<lparr>M_size := M_size ?r + (to_n - from_n)\<rparr>) (p, to_n)"
          using s' lt p by (simp add: inside_def in_block_def)
        have keep: "\<forall>x\<in>set (remove1 (p, from_n) live). inside ?r x \<longrightarrow>
          inside (?r\<lparr>M_size := M_size ?r + (to_n - from_n)\<rparr>) x \<and> \<not> overlap (p, to_n) x"
        proof (intro ballI impI)
          fix x assume x: "x \<in> set (remove1 (p, from_n) live)" and ix: "inside ?r x"
          have e: "unat (fst x) + unat (snd x) \<le> unat p" if s: "snd x \<noteq> 0"
          proof -
            from ix s have "unat (fst x) + unat (snd x) \<le> unat p + unat from_n"
              by (simp add: inside_def tt(1))
            from overlap_above [OF others [OF x] f0 s this] show ?thesis .
          qed
          then have "\<not> overlap (p, to_n) x" by (intro overlap_below) simp
          moreover have "inside (?r\<lparr>M_size := M_size ?r + (to_n - from_n)\<rparr>) x"
            using ix e s' p by (auto simp: inside_def in_block_def)
          ultimately show "inside (?r\<lparr>M_size := M_size ?r + (to_n - from_n)\<rparr>) x
              \<and> \<not> overlap (p, to_n) x" by simp
        qed
        from engine_inv_replace [OF inv i own inb sz new keep]
        have "engine_inv k (rs[i := ?r\<lparr>M_size := M_size ?r + (to_n - from_n)\<rparr>],
            (p, to_n) # remove1 (p, from_n) live)" .
        from engine_inv_mono [OF this, of "Suc k"] pnz Some tnz True show ?thesis
          by (simp add: reallocate_found [OF pnz Some tnz])
      next
        case noplace: False
        show ?thesis
        proof (cases "to_n \<le> from_n")
          case True
          then have le: "unat to_n \<le> unat from_n" by (simp add: word_le_nat_alt)
          have fnz: "from_n \<noteq> 0" using True tnz by auto
          have sz: "M_size ?r \<le> M_capacity ?r" using bounds by (simp add: word_le_nat_alt)
          have new: "inside (?r\<lparr>M_size := M_size ?r\<rparr>) (p, to_n)"
            using ins le fnz by (simp add: inside_def in_block_def)
          have keep: "\<forall>x\<in>set (remove1 (p, from_n) live). inside ?r x \<longrightarrow>
            inside (?r\<lparr>M_size := M_size ?r\<rparr>) x \<and> \<not> overlap (p, to_n) x"
            using overlap_shrink [OF others le] by simp
          from engine_inv_replace [OF inv i own inb sz new keep] i
          have "engine_inv k (rs, (p, to_n) # remove1 (p, from_n) live)" by simp
          from engine_inv_mono [OF this, of "Suc k"] pnz Some tnz noplace True show ?thesis
            by (auto simp: reallocate_found [OF pnz Some tnz])
        next
          case False
          let ?a = "allocate to_n hint mem rs"
          from req have "request_ok (Allocate to_n hint mem) rs" by simp
          from engine_inv_allocate [OF inv k this]
          have "engine_inv (Suc k) (snd ?a, (fst ?a, to_n) # live)" .
          moreover have "(p, from_n) \<in> set ((fst ?a, to_n) # live)" using own by simp
          ultimately have "engine_inv (Suc k)
              (deallocate p from_n (snd ?a), remove1 (p, from_n) ((fst ?a, to_n) # live))"
            by (rule engine_inv_deallocate)
          moreover have "to_n \<noteq> from_n" using False by auto
          ultimately have "engine_inv (Suc k)
              (deallocate p from_n (snd ?a), (fst ?a, to_n) # remove1 (p, from_n) live)"
            by simp
          with pnz Some tnz noplace False show ?thesis
            by (auto simp: reallocate_found [OF pnz Some tnz])
        qed
      qed
    qed
  qed
qed

subsection \<open>Call sequences\<close>

lemma engine_inv_step:
  assumes inv: "engine_inv k s" and k: "k < 2 ^ 32 - 1"
    and own: "owned c (snd s)" and req: "request_ok c (fst s)"
  shows "engine_inv (Suc k) (step c s)"
proof -
  obtain rs live where s: "s = (rs, live)" by (cases s)
  show ?thesis
  proof (cases c)
    case (Allocate n hint mem)
    with engine_inv_allocate [of k rs live n hint mem] inv k req s show ?thesis by simp
  next
    case (Deallocate p n)
    show ?thesis
    proof (cases "p = 0")
      case True
      from inv s have "regions_ok rs" by (simp add: engine_inv_nth)
      then have "deallocate 0 n rs = rs"
        by (simp add: deallocate_def find_region_containing_null)
      with engine_inv_mono [OF engine_inv_remove1, of k rs live "Suc k" "(p, n)"] inv s
        Deallocate True
      show ?thesis by simp
    next
      case False
      with own s Deallocate have "(p, n) \<in> set live" by simp
      from engine_inv_mono [OF engine_inv_deallocate [OF _ this], of k rs "Suc k"] inv s
        Deallocate
      show ?thesis by simp
    qed
  next
    case (Reallocate p from_n to_n hint mem)
    with engine_inv_reallocate [of k rs live p from_n to_n hint mem] inv k own req s
    show ?thesis by simp
  qed
qed

lemma engine_inv_run:
  assumes "engine_inv k s" "well_formed cs s" "k + length cs \<le> 2 ^ 32 - 1"
  shows "engine_inv (k + length cs) (run cs s)"
  using assms
proof (induction cs arbitrary: k s)
  case Nil
  then show ?case by simp
next
  case (Cons c cs)
  from Cons.prems have "engine_inv (Suc k) (step c s)"
    by (intro engine_inv_step) simp_all
  moreover from Cons.prems have "well_formed cs (step c s)" by simp
  moreover from Cons.prems have "Suc k + length cs \<le> 2 ^ 32 - 1" by simp
  ultimately have "engine_inv (Suc k + length cs) (run cs (step c s))"
    by (rule Cons.IH)
  then show ?case by simp
qed

lemma engine_inv_empty: "engine_inv 0 ([], [])"
  by (simp add: engine_inv_def regions_ok_def)

lemma engine_inv_reachable:
  assumes "well_formed cs ([], [])" "length cs \<le> 2 ^ 32 - 1"
  shows "engine_inv (length cs) (run cs ([], []))"
  using engine_inv_run [OF engine_inv_empty assms(1)] assms(2) by simp

lemma sizes_within_capacity:
  assumes "well_formed cs ([], [])" "length cs \<le> 2 ^ 32 - 1"
  shows "\<forall>r\<in>set (fst (run cs ([], []))). M_size r \<le> M_capacity r"
  using engine_inv_reachable [OF assms]
  by (simp add: engine_inv_def regions_ok_def region_ok_def)

lemma allocate_unused_empty:
  assumes emp: "\<forall>r\<in>set rs. M_ref_count r = 0 \<longrightarrow> M_size r = 0"
    and nref: "\<forall>r\<in>set rs. M_ref_count r \<noteq> - 1"
  shows "\<forall>r\<in>set (snd (allocate n hint mem rs)). M_ref_count r = 0 \<longrightarrow> M_size r = 0"
proof (cases "find_region_fitting n hint rs")
  case None
  with emp show ?thesis by (simp add: allocate_new)
next
  case (Some i)
  from find_region_fitting_Some [OF Some] have i: "i < length rs" by simp
  let ?r' = "(rs ! i)\<lparr>M_size := M_size (rs ! i) + n, M_ref_count := M_ref_count (rs ! i) + 1\<rparr>"
  from nref i have nz: "M_ref_count (rs ! i) + 1 \<noteq> 0"
    by (metis nth_mem add_eq_0_iff2)
  have "M_ref_count r = 0 \<longrightarrow> M_size r = 0" if "r \<in> set (rs[i := ?r'])" for r
  proof -
    from that set_update_subset_insert [of rs i ?r'] have "r = ?r' \<or> r \<in> set rs" by auto
    with nz emp show ?thesis by auto
  qed
  then show ?thesis
    by (simp add: allocate_fitting [OF Some] Region_ref_def Region_resize_def)
qed

lemma deallocate_unused_empty:
  assumes emp: "\<forall>r\<in>set rs. M_ref_count r = 0 \<longrightarrow> M_size r = 0"
  shows "\<forall>r\<in>set (deallocate p n rs). M_ref_count r = 0 \<longrightarrow> M_size r = 0"
proof (cases "find_region_containing p rs")
  case None
  with emp show ?thesis by (simp add: deallocate_def)
next
  case (Some i)
  let ?r' = "(rs ! i)\<lparr>M_ref_count := M_ref_count (rs ! i) - 1,
                           M_size := (if M_ref_count (rs ! i) - 1 = 0 then 0
                                      else if Region_top (rs ! i) - n = p
                                           then M_size (rs ! i) - n
                                      else M_size (rs ! i))\<rparr>"
  have "M_ref_count r = 0 \<longrightarrow> M_size r = 0" if "r \<in> set (rs[i := ?r'])" for r
  proof -
    from that set_update_subset_insert [of rs i ?r'] have "r = ?r' \<or> r \<in> set rs" by auto
    with emp show ?thesis by auto
  qed
  then show ?thesis by (simp add: deallocate_found [OF Some])
qed

lemma exec_call_unused_empty:
  assumes emp: "\<forall>r\<in>set rs. M_ref_count r = 0 \<longrightarrow> M_size r = 0"
    and nref: "\<forall>r\<in>set rs. M_ref_count r \<noteq> - 1"
  shows "\<forall>r\<in>set (snd (exec_call c rs)). M_ref_count r = 0 \<longrightarrow> M_size r = 0"
proof (cases c)
  case (Allocate n hint mem)
  with allocate_unused_empty [OF emp nref] show ?thesis by simp
next
  case (Deallocate p n)
  with deallocate_unused_empty [OF emp] show ?thesis by simp
next
  case (Reallocate p from_n to_n hint mem)
  show ?thesis
  proof (cases "p = 0")
    case True
    with Reallocate allocate_unused_empty [OF emp nref] show ?thesis
      by (simp add: reallocate_def)
  next
    case pnz: False
    show ?thesis
    proof (cases "find_region_containing p rs")
      case None
      with Reallocate pnz emp show ?thesis by (simp add: reallocate_def)
    next
      case (Some i)
      show ?thesis
      proof (cases "to_n = 0")
        case True
        with Reallocate pnz Some deallocate_unused_empty [OF emp] show ?thesis
          by (simp add: reallocate_def)
      next
        case tnz: False
        let ?r' = "(rs ! i)\<lparr>M_size := M_size (rs ! i) + (to_n - from_n)\<rparr>"
        from find_region_containing_Some [OF Some] have i: "i < length rs"
          and c: "Region_data (rs ! i) \<le> p" "p < Region_top (rs ! i)" by simp_all
        have "M_size (rs ! i) \<noteq> 0"
        proof
          assume "M_size (rs ! i) = 0"
          then have "Region_top (rs ! i) = Region_data (rs ! i)"
            by (simp add: Region_top_def Region_data_def)
          with c show False by simp
        qed
        with emp i have nz: "M_ref_count (rs ! i) \<noteq> 0" by auto
        have 1: "M_ref_count r = 0 \<longrightarrow> M_size r = 0" if "r \<in> set (rs[i := ?r'])" for r
        proof -
          from that set_update_subset_insert [of rs i ?r'] have "r = ?r' \<or> r \<in> set rs"
            by auto
          with nz emp show ?thesis by auto
        qed
        have 2: "\<forall>r\<in>set (deallocate p from_n (snd (allocate to_n hint mem rs))).
            M_ref_count r = 0 \<longrightarrow> M_size r = 0"
          by (intro deallocate_unused_empty allocate_unused_empty [OF emp nref])
        from 1 2 emp Reallocate show ?thesis
          by (simp add: reallocate_found [OF pnz Some tnz])
      qed
    qed
  qed
qed

lemma fst_step: "fst (step c (rs, live)) = snd (exec_call c rs)"
  by (cases c) simp_all

lemma ref_count_below:
  fixes c :: "32 word"
  assumes "unat c < 2 ^ 32 - 1"
  shows "c \<noteq> - 1"
proof
  assume "c = - 1"
  then have "unat c = 2 ^ 32 - 1"
    by (simp add: unsigned_minus_1_eq_mask mask_eq_exp_minus_1)
  with assms show False by simp
qed

lemma unused_empty_run:
  assumes "engine_inv k s" "well_formed cs s" "k + length cs \<le> 2 ^ 32 - 1"
    and "\<forall>r\<in>set (fst s). M_ref_count r = 0 \<longrightarrow> M_size r = 0"
  shows "\<forall>r\<in>set (fst (run cs s)). M_ref_count r = 0 \<longrightarrow> M_size r = 0"
  using assms
proof (induction cs arbitrary: k s)
  case Nil
  then show ?case by simp
next
  case (Cons c cs)
  obtain rs live where s: "s = (rs, live)" by (cases s)
  from Cons.prems have k: "k < 2 ^ 32 - 1" by simp
  have nref: "\<forall>r\<in>set rs. M_ref_count r \<noteq> - 1"
  proof
    fix r assume "r \<in> set rs"
    with Cons.prems(1) s have "unat (M_ref_count r) \<le> k" by (simp add: engine_inv_def)
    with k show "M_ref_count r \<noteq> - 1" by (intro ref_count_below) simp
  qed
  from Cons.prems(4) s have emp: "\<forall>r\<in>set rs. M_ref_count r = 0 \<longrightarrow> M_size r = 0" by simp
  have 1: "\<forall>r\<in>set (fst (step c s)). M_ref_count r = 0 \<longrightarrow> M_size r = 0"
    unfolding s fst_step by (rule exec_call_unused_empty [OF emp nref])
  from Cons.prems k have 2: "engine_inv (Suc k) (step c s)"
    by (intro engine_inv_step) simp_all
  from Cons.prems have 3: "well_formed cs (step c s)" "Suc k + length cs \<le> 2 ^ 32 - 1"
    by simp_all
  from Cons.IH [OF 2 3 1] show ?case by simp
qed

lemma reachable_regions_ok:
  assumes "well_formed cs ([], [])" "length cs < 2 ^ 32 - 1"
  shows "regions_ok (fst (run cs ([], [])))"
    and "\<forall>r\<in>set (fst (run cs ([], []))). M_ref_count r \<noteq> - 1"
    and "\<forall>r\<in>set (fst (run cs ([], []))). M_ref_count r = 0 \<longrightarrow> M_size r = 0"
proof -
  from assms have inv: "engine_inv (length cs) (run cs ([], []))"
    by (intro engine_inv_reachable) simp_all
  then show "regions_ok (fst (run cs ([], [])))" by (simp add: engine_inv_def)
  show "\<forall>r\<in>set (fst (run cs ([], []))). M_ref_count r \<noteq> - 1"
  proof
    fix r assume "r \<in> set (fst (run cs ([], [])))"
    with inv have "unat (M_ref_count r) \<le> length cs" by (simp add: engine_inv_def)
    with assms(2) show "M_ref_count r \<noteq> - 1" by (intro ref_count_below) simp
  qed
  from unused_empty_run [OF engine_inv_empty assms(1)] assms(2)
  show "\<forall>r\<in>set (fst (run cs ([], []))). M_ref_count r = 0 \<longrightarrow> M_size r = 0" by simp
qed

lemmas engine_defs = allocate_def deallocate_def reallocate_def find_region_fitting_def
  fits_def Region_top_def Region_end_def Region_data_def Region_new_def Region_ref_def
  Region_resize_def Region_unref_def Region_unused_def Region_clear_def S_capacity_def

subsection \<open>A wrapped occupancy counter\<close>

lemma run_append: "run (cs @ ds) s = run ds (run cs s)"
  by (induction cs arbitrary: s) simp_all

lemma well_formed_append:
  "well_formed (cs @ ds) s \<longleftrightarrow> well_formed cs s \<and> well_formed ds (run cs s)"
  by (induction cs arbitrary: s) auto

text \<open>\<open>reallocate (nullptr, 0, 0, nullptr)\<close>, \<open>k\<close> times, on one Region with room.\<close>

lemma null_reallocations:
  assumes "fits 0 r"
  shows "well_formed (replicate k (Reallocate 0 0 0 0 mem)) ([r], live)
    \<and> run (replicate k (Reallocate 0 0 0 0 mem)) ([r], live)
        = ([r\<lparr>M_ref_count := M_ref_count r + of_nat k\<rparr>], replicate k (Region_top r, 0) @ live)"
  using assms
proof (induction k arbitrary: r live)
  case 0
  then show ?case by simp
next
  case (Suc k)
  let ?r' = "r\<lparr>M_ref_count := M_ref_count r + 1\<rparr>"
  from Suc.prems have f: "find_region_fitting 0 0 [r] = Some 0"
    by (simp add: find_region_fitting_def)
  then have a: "allocate 0 0 mem [r] = (Region_top r, [?r'])"
    by (simp add: allocate_fitting Region_ref_def Region_resize_def)
  have st: "step (Reallocate 0 0 0 0 mem) ([r], live) = ([?r'], (Region_top r, 0) # live)"
    by (simp add: reallocate_def a)
  have f': "fits 0 ?r'" using Suc.prems by (simp add: fits_def Region_top_def Region_end_def)
  have t: "Region_top ?r' = Region_top r" by (simp add: Region_top_def)
  from Suc.IH [OF f', of "(Region_top r, 0) # live"] f st t show ?case
    by (simp add: replicate_app_Cons_same add.assoc)
qed

lemma counter_wraps:
  assumes k: "(of_nat k :: 32 word) = - 1"
  shows "well_formed (Allocate 16 0 4096 # replicate k (Reallocate 0 0 0 0 8192)
            @ [Allocate 8 0 8192, Deallocate 4112 8]) ([], [])
    \<and> run (Allocate 16 0 4096 # replicate k (Reallocate 0 0 0 0 8192)
            @ [Allocate 8 0 8192, Deallocate 4112 8]) ([], [])
        = ([\<lparr>M_capacity = 4096, M_data = 4096, M_size = 0, M_ref_count = 0\<rparr>],
           replicate k (4112, 0) @ [(4096, 16)])"
proof -
  let ?r1 = "\<lparr>M_capacity = 4096, M_data = 4096, M_size = 16, M_ref_count = 1\<rparr>"
  let ?r2 = "\<lparr>M_capacity = 4096, M_data = 4096, M_size = 16, M_ref_count = 0\<rparr>"
  let ?L = "replicate k (4112, 0) @ [(4096, 16)]"
  have 1: "request_ok (Allocate 16 0 4096) []"
    "step (Allocate 16 0 4096) ([], []) = ([?r1], [(4096, 16)])"
    by (simp_all add: engine_defs fresh_block_def)
  have "fits 0 ?r1" by (simp add: engine_defs)
  from null_reallocations [OF this, of k 8192 "[(4096, 16)]"] k
  have 2: "well_formed (replicate k (Reallocate 0 0 0 0 8192)) ([?r1], [(4096, 16)])"
    "run (replicate k (Reallocate 0 0 0 0 8192)) ([?r1], [(4096, 16)]) = ([?r2], ?L)"
    by (simp_all add: Region_top_def)
  have 3: "well_formed [Allocate 8 0 8192, Deallocate 4112 8] ([?r2], l)"
    "run [Allocate 8 0 8192, Deallocate 4112 8] ([?r2], l)
       = ([\<lparr>M_capacity = 4096, M_data = 4096, M_size = 0, M_ref_count = 0\<rparr>], l)" for l
    by (simp_all add: engine_defs)
  from 1 2 3 [of ?L] show ?thesis
    by (simp add: run_append well_formed_append)
qed

section \<open>No overlap\<close>

text \<open>
  A state whose counters are all below the maximum satisfies the invariant with
  the bound \<open>2 ^ 32 - 2\<close>, whatever the number of calls made so far.
\<close>

lemma ref_count_max:
  fixes c :: "32 word"
  assumes "c \<noteq> - 1"
  shows "unat c \<le> 2 ^ 32 - 2"
proof -
  have "unat c \<noteq> 2 ^ 32 - 1"
  proof
    assume "unat c = 2 ^ 32 - 1"
    then have "unat c = unat (- 1 :: 32 word)"
      by (simp add: unsigned_minus_1_eq_mask mask_eq_exp_minus_1)
    then have "c = - 1" by (simp only: word_unat_eq_iff)
    with assms show False by simp
  qed
  moreover have "unat c < 2 ^ 32" using unsigned_less [of c] by simp
  ultimately show ?thesis by simp
qed

lemma engine_inv_counters:
  assumes "engine_inv k s" "counters_ok (fst s)"
  shows "engine_inv (2 ^ 32 - 2) s"
proof -
  have "unat (M_ref_count r) \<le> 2 ^ 32 - 2" if "r \<in> set (fst s)" for r
    using that assms(2) by (intro ref_count_max) (simp add: counters_ok_def)
  with assms(1) show ?thesis unfolding engine_inv_def by blast
qed

lemma engine_inv_run_counters:
  assumes "engine_inv k s" "well_formed cs s" "counters_hold cs s"
  shows "engine_inv (2 ^ 32 - 2) (run cs s)"
  using assms
proof (induction cs arbitrary: k s)
  case Nil
  from engine_inv_counters [OF Nil.prems(1)] Nil.prems(3) show ?case by simp
next
  case (Cons c cs)
  from engine_inv_counters [OF Cons.prems(1)] Cons.prems(3)
  have "engine_inv (2 ^ 32 - 2) s" by simp
  with Cons.prems have "engine_inv (Suc (2 ^ 32 - 2)) (step c s)"
    by (intro engine_inv_step) simp_all
  moreover from Cons.prems have "well_formed cs (step c s)" "counters_hold cs (step c s)"
    by simp_all
  ultimately show ?case using Cons.IH by simp
qed

lemma counters_hold_bounded:
  assumes "engine_inv k s" "well_formed cs s" "k + length cs < 2 ^ 32 - 1"
  shows "counters_hold cs s"
  using assms
proof (induction cs arbitrary: k s)
  case Nil
  then show ?case
    by (auto simp: counters_ok_def engine_inv_def intro!: ref_count_below)
next
  case (Cons c cs)
  from Cons.prems have 1: "counters_ok (fst s)"
    by (auto simp: counters_ok_def engine_inv_def intro!: ref_count_below)
  from Cons.prems have "engine_inv (Suc k) (step c s)"
    by (intro engine_inv_step) simp_all
  moreover from Cons.prems have "well_formed cs (step c s)" "Suc k + length cs < 2 ^ 32 - 1"
    by simp_all
  ultimately have "counters_hold cs (step c s)" by (rule Cons.IH)
  with 1 show ?case by simp
qed

text \<open>
  The condition holds however long the sequence is when allocations are freed
  again: any number of rounds of \<open>allocate (16)\<close> and the \<open>deallocate\<close> of its
  pointer.
\<close>

lemma counters_hold_append:
  "counters_hold (cs @ ds) s \<longleftrightarrow> counters_hold cs s \<and> counters_hold ds (run cs s)"
proof (induction cs arbitrary: s)
  case Nil
  then show ?case by (cases ds) auto
next
  case (Cons c cs)
  then show ?case by auto
qed

lemma churn_counters_hold:
  "well_formed (concat (replicate k [Allocate 16 0 4096, Deallocate 4096 16])) ([], [])
   \<and> counters_hold (concat (replicate k [Allocate 16 0 4096, Deallocate 4096 16])) ([], [])"
proof -
  let ?r = "\<lparr>M_capacity = 4096, M_data = 4096, M_size = 0, M_ref_count = 0\<rparr>"
  let ?c = "[Allocate 16 0 4096, Deallocate 4096 16]"
  have 1: "well_formed ?c ([?r], []) \<and> counters_hold ?c ([?r], [])
      \<and> run ?c ([?r], []) = ([?r], [])"
    by (simp add: engine_defs counters_ok_def)
  have 2: "well_formed (concat (replicate j ?c)) ([?r], [])
      \<and> counters_hold (concat (replicate j ?c)) ([?r], [])
      \<and> run (concat (replicate j ?c)) ([?r], []) = ([?r], [])" for j
  proof (induction j)
    case 0
    then show ?case by (simp add: counters_ok_def)
  next
    case (Suc j)
    have "concat (replicate (Suc j) ?c) = ?c @ concat (replicate j ?c)" by simp
    with 1 Suc show ?case
      by (simp only: well_formed_append counters_hold_append run_append)
  qed
  have 3: "well_formed ?c ([], []) \<and> counters_hold ?c ([], []) \<and> run ?c ([], []) = ([?r], [])"
    by (simp add: engine_defs counters_ok_def fresh_block_def)
  show ?thesis
  proof (cases k)
    case 0
    then show ?thesis by (simp add: counters_ok_def)
  next
    case (Suc j)
    have "concat (replicate (Suc j) ?c) = ?c @ concat (replicate j ?c)" by simp
    with 2 [of j] 3 Suc show ?thesis
      by (simp only: well_formed_append counters_hold_append run_append)
  qed
qed

text \<open>
  C1, as the code has it. Take a call sequence run from the empty engine in which
  every \<open>deallocate\<close> and \<open>reallocate\<close> passes the null pointer or a live
  allocation with its exact size, every requested size is below \<open>2 ^ 63\<close>, the
  backing store hands out a fresh block (non-null, in the lower half of the address
  space, apart from the blocks of the existing Regions) whenever a Region is
  constructed, and no occupancy counter is at its maximum \<open>2 ^ 32 - 1\<close> in any
  state the sequence passes through, the state it reaches included. In that
  state \<open>allocate (n, hint)\<close> for a size below \<open>2 ^ 63\<close> returns a non-null
  pointer, and the \<open>n\<close> bytes from it overlap the span of no live allocation.
  The number of calls is not bounded.
\<close>

theorem allocate_no_overlap:
  assumes "well_formed cs ([], [])" and "counters_hold cs ([], [])"
    and "request_ok (Allocate n hint mem) (fst (run cs ([], [])))"
  shows "fst (allocate n hint mem (fst (run cs ([], [])))) \<noteq> 0
    \<and> (\<forall>a\<in>set (snd (run cs ([], []))).
          \<not> overlap (fst (allocate n hint mem (fst (run cs ([], [])))), n) a)"
proof -
  obtain rs live where s: "run cs ([], []) = (rs, live)" by (cases "run cs ([], [])")
  let ?p = "fst (allocate n hint mem rs)"
  from engine_inv_run_counters [OF engine_inv_empty assms(1,2)] s
  have inv: "engine_inv (2 ^ 32 - 2) (rs, live)" by simp
  from assms(3) s have req: "request_ok (Allocate n hint mem) rs" by simp
  have "(2 ^ 32 - 2 :: nat) < 2 ^ 32 - 1" by simp
  from engine_inv_allocate [OF inv this req]
  have inv': "engine_inv (Suc (2 ^ 32 - 2)) (snd (allocate n hint mem rs), (?p, n) # live)" .
  then have "\<forall>a\<in>set live. \<not> overlap (?p, n) a"
    by (simp add: engine_inv_nth)
  moreover have "?p \<noteq> 0"
  proof -
    from inv' obtain j where j: "j < length (snd (allocate n hint mem rs))"
      "inside (snd (allocate n hint mem rs) ! j) (?p, n)"
      by (auto simp: engine_inv_nth)
    from inv' have "regions_ok (snd (allocate n hint mem rs))" by (simp add: engine_inv_nth)
    from region_ok_bounds(1) [OF regions_ok_nth [OF this j(1)]] j(2)
    have "0 < unat ?p" by (simp add: inside_def in_block_def)
    then show ?thesis by (simp add: unat_gt_0)
  qed
  ultimately show ?thesis using s by simp
qed

theorem allocate_no_overlap_witness:
  "well_formed [Allocate 16 0 4096, Allocate 32 4096 8192, Deallocate 4112 32,
                Reallocate 4096 16 24 0 8192, Allocate 5000 0 16384,
                Reallocate 4096 24 4090 0 32768, Deallocate 16384 5000] ([], [])
   \<and> counters_hold [Allocate 16 0 4096, Allocate 32 4096 8192, Deallocate 4112 32,
                Reallocate 4096 16 24 0 8192, Allocate 5000 0 16384,
                Reallocate 4096 24 4090 0 32768, Deallocate 16384 5000] ([], [])
   \<and> run [Allocate 16 0 4096, Allocate 32 4096 8192, Deallocate 4112 32,
           Reallocate 4096 16 24 0 8192, Allocate 5000 0 16384,
           Reallocate 4096 24 4090 0 32768, Deallocate 16384 5000] ([], [])
       = ([\<lparr>M_capacity = 4096, M_data = 4096, M_size = 4090, M_ref_count = 1\<rparr>,
           \<lparr>M_capacity = 5000, M_data = 16384, M_size = 0, M_ref_count = 0\<rparr>],
          [(4096, 4090)])
   \<and> fst (allocate 100 4096 40960
            [\<lparr>M_capacity = 4096, M_data = 4096, M_size = 4090, M_ref_count = 1\<rparr>,
             \<lparr>M_capacity = 5000, M_data = 16384, M_size = 0, M_ref_count = 0\<rparr>]) = 16384
   \<and> \<not> overlap (16384, 100) (4096, 4090)"
  using allocate_no_overlap [of "[Allocate 16 0 4096, Allocate 32 4096 8192, Deallocate 4112 32,
                Reallocate 4096 16 24 0 8192, Allocate 5000 0 16384,
                Reallocate 4096 24 4090 0 32768, Deallocate 16384 5000]" 100 4096 40960]
  by (simp add: engine_defs fresh_block_def apart_def counters_ok_def)

text \<open>
  The claim as stated, for every size and every state the calls of the engine can
  reach, fails in three ways. A size of \<open>SIZE_MAX\<close> makes \<open>top () + n\<close> wrap around in
  the capacity test: the Region is selected and its size drops from 16 to 15, so
  the next \<open>allocate (8)\<close> returns 4111, inside the live allocation of 16 bytes at
  4096. A \<open>deallocate\<close> of a pointer that was never returned (4104, with size 24)
  is not detected: it moves the top of the Region back into the first allocation,
  and the next \<open>allocate (8)\<close> returns 4104. And \<open>2 ^ 32 - 1\<close> calls of
  \<open>reallocate (nullptr, 0, 0, nullptr)\<close>, each counted as an allocation, wrap the
  32-bit occupancy counter of the Region to 0 while 16 bytes are live in it: after
  one more \<open>allocate\<close> and its \<open>deallocate\<close> the Region counts as unused and is
  cleared, and the next \<open>allocate (16)\<close> returns 4096, the live allocation itself.
\<close>

theorem allocate_overlap_counterexample:
  "(owned_calls [Allocate 16 0 4096, Allocate 18446744073709551615 0 8192] ([], [])
    \<and> run [Allocate 16 0 4096, Allocate 18446744073709551615 0 8192] ([], [])
        = ([\<lparr>M_capacity = 4096, M_data = 4096, M_size = 15, M_ref_count = 2\<rparr>],
           [(4112, 18446744073709551615), (4096, 16)])
    \<and> fst (allocate 8 0 12288
             [\<lparr>M_capacity = 4096, M_data = 4096, M_size = 15, M_ref_count = 2\<rparr>]) = 4111
    \<and> overlap (4111, 8) (4096, 16))
   \<and> (run [Allocate 16 0 4096, Allocate 16 0 8192, Deallocate 4104 24] ([], [])
        = ([\<lparr>M_capacity = 4096, M_data = 4096, M_size = 8, M_ref_count = 1\<rparr>],
           [(4112, 16), (4096, 16)])
    \<and> fst (allocate 8 0 12288
             [\<lparr>M_capacity = 4096, M_data = 4096, M_size = 8, M_ref_count = 1\<rparr>]) = 4104
    \<and> overlap (4104, 8) (4096, 16))
   \<and> (well_formed (Allocate 16 0 4096 # replicate 4294967295 (Reallocate 0 0 0 0 8192)
            @ [Allocate 8 0 8192, Deallocate 4112 8]) ([], [])
    \<and> run (Allocate 16 0 4096 # replicate 4294967295 (Reallocate 0 0 0 0 8192)
            @ [Allocate 8 0 8192, Deallocate 4112 8]) ([], [])
        = ([\<lparr>M_capacity = 4096, M_data = 4096, M_size = 0, M_ref_count = 0\<rparr>],
           replicate 4294967295 (4112, 0) @ [(4096, 16)])
    \<and> fst (allocate 16 0 8192
             [\<lparr>M_capacity = 4096, M_data = 4096, M_size = 0, M_ref_count = 0\<rparr>]) = 4096
    \<and> overlap (4096, 16) (4096, 16))"
proof -
  have 1: "owned_calls [Allocate 16 0 4096, Allocate 18446744073709551615 0 8192] ([], [])
    \<and> run [Allocate 16 0 4096, Allocate 18446744073709551615 0 8192] ([], [])
        = ([\<lparr>M_capacity = 4096, M_data = 4096, M_size = 15, M_ref_count = 2\<rparr>],
           [(4112, 18446744073709551615), (4096, 16)])
    \<and> fst (allocate 8 0 12288
             [\<lparr>M_capacity = 4096, M_data = 4096, M_size = 15, M_ref_count = 2\<rparr>]) = 4111
    \<and> overlap (4111, 8) (4096, 16)"
    by (simp add: engine_defs overlap_def)
  have 2: "run [Allocate 16 0 4096, Allocate 16 0 8192, Deallocate 4104 24] ([], [])
        = ([\<lparr>M_capacity = 4096, M_data = 4096, M_size = 8, M_ref_count = 1\<rparr>],
           [(4112, 16), (4096, 16)])
    \<and> fst (allocate 8 0 12288
             [\<lparr>M_capacity = 4096, M_data = 4096, M_size = 8, M_ref_count = 1\<rparr>]) = 4104
    \<and> overlap (4104, 8) (4096, 16)"
    by (simp add: engine_defs overlap_def)
  have 3: "well_formed (Allocate 16 0 4096 # replicate 4294967295 (Reallocate 0 0 0 0 8192)
            @ [Allocate 8 0 8192, Deallocate 4112 8]) ([], [])
    \<and> run (Allocate 16 0 4096 # replicate 4294967295 (Reallocate 0 0 0 0 8192)
            @ [Allocate 8 0 8192, Deallocate 4112 8]) ([], [])
        = ([\<lparr>M_capacity = 4096, M_data = 4096, M_size = 0, M_ref_count = 0\<rparr>],
           replicate 4294967295 (4112, 0) @ [(4096, 16)])"
    by (rule counter_wraps) simp
  have 4: "fst (allocate 16 0 8192
             [\<lparr>M_capacity = 4096, M_data = 4096, M_size = 0, M_ref_count = 0\<rparr>]) = 4096
    \<and> overlap (4096, 16) (4096, 16)"
    by (simp add: engine_defs overlap_def)
  from 1 2 3 4 show ?thesis by blast
qed

section \<open>Reuse of the top of a Region\<close>

text \<open>What \<open>allocate\<close> leaves in the Region it has placed the allocation in.\<close>

lemma allocate_placed:
  assumes oks: "regions_ok rs" and req: "request_ok (Allocate n hint mem) rs"
    and nref: "\<forall>r\<in>set rs. M_ref_count r \<noteq> - 1"
  defines "j \<equiv> region_index n hint rs"
    and "s1 \<equiv> snd (allocate n hint mem rs)"
    and "A \<equiv> fst (allocate n hint mem rs)"
  shows "regions_ok s1" "j < length s1" "Region_top (s1 ! j) = A + n"
    "M_ref_count (s1 ! j) \<noteq> 0"
    "unat (M_data (s1 ! j)) \<le> unat A"
    "unat A + unat n = unat (M_data (s1 ! j)) + unat (M_size (s1 ! j))"
proof -
  have "regions_ok s1 \<and> j < length s1 \<and> Region_top (s1 ! j) = A + n
    \<and> M_ref_count (s1 ! j) \<noteq> 0 \<and> unat (M_data (s1 ! j)) \<le> unat A
    \<and> unat A + unat n = unat (M_data (s1 ! j)) + unat (M_size (s1 ! j))"
  proof (cases "find_region_fitting n hint rs")
    case None
    let ?r = "\<lparr>M_capacity = max S_capacity n, M_data = mem, M_size = n, M_ref_count = 1\<rparr>"
    from None req have f: "fresh_block mem (max S_capacity n) rs" by simp
    have "0 < unat (max S_capacity n)"
      by (simp add: unat_max S_capacity_def less_max_iff_disj)
    then have c: "max S_capacity n \<noteq> 0" by (simp add: unat_gt_0)
    have "regions_ok (rs @ [?r])"
      using oks f c by (intro regions_ok_append) simp_all
    moreover have "s1 = rs @ [?r]" "A = mem" "j = length rs"
      using None by (simp_all add: s1_def A_def j_def allocate_new region_index_def)
    ultimately show ?thesis by (simp add: Region_top_def)
  next
    case (Some i)
    from find_region_fitting_Some [OF Some] have i: "i < length rs" and f: "fits n (rs ! i)"
      by simp_all
    let ?r = "rs ! i"
    let ?r' = "?r\<lparr>M_size := M_size ?r + n, M_ref_count := M_ref_count ?r + 1\<rparr>"
    have ok: "region_ok ?r" by (rule regions_ok_nth [OF oks i])
    from req have "unat n < 2 ^ 63" by simp
    with f fits_nat [OF ok]
    have room: "unat (M_size ?r) + unat n < unat (M_capacity ?r)" by simp
    then have g: "unat (M_size ?r + n) = unat (M_size ?r) + unat n"
      by (intro unat_size_grow [OF ok]) simp
    have "region_ok ?r'"
      using room g by (intro region_ok_resize [OF ok]) simp
    then have "regions_ok (rs[i := ?r'])"
      using oks i by (intro regions_ok_update) simp_all
    moreover have e: "s1 = rs[i := ?r']" "A = Region_top ?r" "j = i"
      using Some by (simp_all add: s1_def A_def j_def allocate_fitting region_index_def
          Region_ref_def Region_resize_def)
    moreover from nref i have "M_ref_count ?r + 1 \<noteq> 0"
      by (metis nth_mem add_eq_0_iff2)
    ultimately show ?thesis
      using i g unat_top [OF ok] by (simp add: Region_top_def)
  qed
  then show "regions_ok s1" "j < length s1" "Region_top (s1 ! j) = A + n"
    "M_ref_count (s1 ! j) \<noteq> 0"
    "unat (M_data (s1 ! j)) \<le> unat A"
    "unat A + unat n = unat (M_data (s1 ! j)) + unat (M_size (s1 ! j))"
    by simp_all
qed

text \<open>An allocation of \<open>m > 0\<close> bytes, freed at once: what is left of it.\<close>

lemma allocate_deallocate:
  assumes oks: "regions_ok rs"
    and emp: "\<forall>r\<in>set rs. M_ref_count r = 0 \<longrightarrow> M_size r = 0"
    and req: "request_ok (Allocate m hint mem) rs" and m: "m \<noteq> 0"
  defines "B \<equiv> fst (allocate m hint mem rs)"
    and "s3 \<equiv> deallocate (fst (allocate m hint mem rs)) m (snd (allocate m hint mem rs))"
  shows "find_region_fitting m hint rs = Some j \<Longrightarrow> s3 = rs \<and> B = Region_top (rs ! j)"
    and "find_region_fitting m hint rs = None \<Longrightarrow>
      s3 = rs @ [\<lparr>M_capacity = max S_capacity m, M_data = mem, M_size = 0, M_ref_count = 0\<rparr>]
      \<and> B = mem \<and> regions_ok s3"
proof -
  from req have m63: "unat m < 2 ^ 63" by simp
  have mpos: "0 < unat m" using m by (simp add: unat_gt_0)
  show "s3 = rs \<and> B = Region_top (rs ! j)" if f: "find_region_fitting m hint rs = Some j"
  proof -
    let ?r = "rs ! j"
    let ?r' = "?r\<lparr>M_size := M_size ?r + m, M_ref_count := M_ref_count ?r + 1\<rparr>"
    from find_region_fitting_Some [OF f] have j: "j < length rs" and ft: "fits m ?r"
      by simp_all
    have ok: "region_ok ?r" by (rule regions_ok_nth [OF oks j])
    from ft fits_nat [OF ok m63]
    have room: "unat (M_size ?r) + unat m < unat (M_capacity ?r)" by simp
    then have g: "unat (M_size ?r + m) = unat (M_size ?r) + unat m"
      by (intro unat_size_grow [OF ok]) simp
    have a: "allocate m hint mem rs = (Region_top ?r, rs[j := ?r'])"
      by (simp add: allocate_fitting [OF f] Region_ref_def Region_resize_def)
    have "region_ok ?r'"
      using room g by (intro region_ok_resize [OF ok]) simp
    then have oks': "regions_ok (rs[j := ?r'])"
      using oks j by (intro regions_ok_update) simp_all
    have "find_region_containing (Region_top ?r) (rs[j := ?r']) = Some j"
      using j g mpos unat_top [OF ok] by (simp add: find_region_containing_nat [OF oks'])
    from deallocate_found [OF this, of m] j
    have d: "deallocate (Region_top ?r) m (rs[j := ?r'])
        = rs[j := ?r\<lparr>M_size := (if M_ref_count ?r = 0 then 0 else M_size ?r)\<rparr>]"
      by (simp add: Region_top_def)
    from emp j have "M_ref_count ?r = 0 \<longrightarrow> M_size ?r = 0" by simp
    then have "?r\<lparr>M_size := (if M_ref_count ?r = 0 then 0 else M_size ?r)\<rparr> = ?r"
      by auto
    with d a show ?thesis by (simp add: s3_def B_def)
  qed
  show "s3 = rs @ [\<lparr>M_capacity = max S_capacity m, M_data = mem, M_size = 0, M_ref_count = 0\<rparr>]
      \<and> B = mem \<and> regions_ok s3" if f: "find_region_fitting m hint rs = None"
  proof -
    let ?r1 = "\<lparr>M_capacity = max S_capacity m, M_data = mem, M_size = m, M_ref_count = 1\<rparr>"
    let ?r0 = "\<lparr>M_capacity = max S_capacity m, M_data = mem, M_size = 0, M_ref_count = 0\<rparr>"
    from f req have fb: "fresh_block mem (max S_capacity m) rs" by simp
    have "0 < unat (max S_capacity m)"
      by (simp add: unat_max S_capacity_def less_max_iff_disj)
    then have c: "max S_capacity m \<noteq> 0" by (simp add: unat_gt_0)
    have oks1: "regions_ok (rs @ [?r1])"
      using oks fb c by (intro regions_ok_append) simp_all
    have oks0: "regions_ok (rs @ [?r0])"
      using oks fb c by (intro regions_ok_append) simp_all
    have a: "allocate m hint mem rs = (mem, rs @ [?r1])" by (rule allocate_new [OF f])
    have "find_region_containing mem (rs @ [?r1]) = Some (length rs)"
      using mpos by (simp add: find_region_containing_nat [OF oks1])
    from deallocate_found [OF this, of m]
    have "deallocate mem m (rs @ [?r1]) = rs @ [?r0]" by simp
    with a oks0 show ?thesis by (simp add: s3_def B_def)
  qed
qed

text \<open>
  C8, as the code has it. In a state whose Regions are well-shaped, where no
  occupancy counter is at its maximum and every unused Region is empty (every
  state that a well-formed sequence of fewer than \<open>2 ^ 32 - 1\<close> calls reaches is
  one, \<open>reachable_regions_ok\<close>): allocate A (\<open>n\<close> bytes), then B (\<open>m > 0\<close>
  bytes), free B with \<open>deallocate (B, m)\<close>, then allocate C of a size \<open>c \<le> m\<close>.
  After B is freed the top of the Region B was placed in is back at the address
  of B, and C gets that address whenever the search for C selects that Region. It
  does when C is requested without a hint, no earlier Region has room for \<open>c\<close>
  bytes and the Region of B has: it always has unless it was constructed for B
  and \<open>c\<close> is its whole capacity. When B was placed in the Region of A, it lies
  directly after A, and freeing it restores the Regions exactly.
\<close>

theorem lifo_reuse:
  fixes rs :: "Region list" and n hA memA m hB memB c hC memC :: "64 word"
  defines "A \<equiv> fst (allocate n hA memA rs)" and "s1 \<equiv> snd (allocate n hA memA rs)"
  defines "B \<equiv> fst (allocate m hB memB s1)" and "s2 \<equiv> snd (allocate m hB memB s1)"
    and "j \<equiv> region_index m hB s1"
  defines "s3 \<equiv> deallocate B m s2"
  defines "C \<equiv> fst (allocate c hC memC s3)"
  assumes oks: "regions_ok rs" and nref: "\<forall>r\<in>set rs. M_ref_count r \<noteq> - 1"
    and emp: "\<forall>r\<in>set rs. M_ref_count r = 0 \<longrightarrow> M_size r = 0"
    and reqA: "request_ok (Allocate n hA memA) rs"
    and reqB: "request_ok (Allocate m hB memB) s1"
    and m: "m \<noteq> 0" and c: "c \<le> m"
  shows "j < length s3 \<and> Region_top (s3 ! j) = B
    \<and> (find_region_fitting c hC s3 = Some j \<longrightarrow> C = B)
    \<and> (hC = 0 \<and> (\<forall>k<j. \<not> fits c (s3 ! k)) \<and> (j < length s1 \<or> c < max S_capacity m)
         \<longrightarrow> C = B)
    \<and> (j = region_index n hA rs \<longrightarrow> B = A + n \<and> s3 = s1)"
proof -
  note pl = allocate_placed [OF oks reqA nref, folded s1_def A_def]
  have emp1: "\<forall>r\<in>set s1. M_ref_count r = 0 \<longrightarrow> M_size r = 0"
    unfolding s1_def by (rule allocate_unused_empty [OF emp nref])
  note ad = allocate_deallocate [OF pl(1) emp1 reqB m, folded B_def s2_def, folded s3_def]
  from reqB have m63: "unat m < 2 ^ 63" by simp
  from c have cm: "unat c \<le> unat m" by (simp add: word_le_nat_alt)
  with m63 have c63: "unat c < 2 ^ 63" by simp
  have top: "j < length s3 \<and> Region_top (s3 ! j) = B
    \<and> (j < length s1 \<or> c < max S_capacity m \<longrightarrow> fits c (s3 ! j))
    \<and> (j < length s1 \<longrightarrow> s3 = s1 \<and> B = Region_top (s1 ! j))"
  proof (cases "find_region_fitting m hB s1")
    case None
    let ?r0 = "\<lparr>M_capacity = max S_capacity m, M_data = memB, M_size = 0, M_ref_count = 0\<rparr>"
    from None have j: "j = length s1" by (simp add: j_def region_index_def)
    note x = ad(2) [OF None]
    have s3: "s3 = s1 @ [?r0]" using x by blast
    have B: "B = memB" using x by blast
    have oks3: "regions_ok s3" using x by blast
    have ok: "region_ok ?r0" using regions_ok_nth [OF oks3, of "length s1"] s3 by simp
    have "fits c ?r0" if "c < max S_capacity m"
      using that by (simp add: fits_nat [OF ok c63] word_less_nat_alt)
    with j s3 B show ?thesis by (simp add: Region_top_def)
  next
    case (Some i)
    then have j: "j = i" by (simp add: j_def region_index_def)
    from find_region_fitting_Some [OF Some] have i: "i < length s1" and f: "fits m (s1 ! i)"
      by simp_all
    note x = ad(1) [OF Some]
    have s3: "s3 = s1" using x by blast
    have B: "B = Region_top (s1 ! i)" using x by blast
    have ok: "region_ok (s1 ! i)" by (rule regions_ok_nth [OF pl(1) i])
    from f fits_nat [OF ok m63] cm have "fits c (s1 ! i)"
      by (simp add: fits_nat [OF ok c63])
    with j i s3 B show ?thesis by simp
  qed
  have C: "C = B" if "find_region_fitting c hC s3 = Some j"
    using allocate_fitting [OF that] top by (simp add: C_def)
  have 1: "find_region_fitting c hC s3 = Some j"
    if "hC = 0 \<and> (\<forall>k<j. \<not> fits c (s3 ! k)) \<and> (j < length s1 \<or> c < max S_capacity m)"
  proof -
    from that top have "first_fitting c s3 = Some j"
      by (simp add: first_fitting_iff)
    with that show ?thesis by (simp add: find_region_fitting_def)
  qed
  have 2: "B = A + n \<and> s3 = s1" if "j = region_index n hA rs"
    using that top pl(2,3) by simp
  from top C 1 2 show ?thesis by blast
qed

theorem lifo_reuse_witness:
  "allocate 16 0 8192 [\<lparr>M_capacity = 4096, M_data = 4096, M_size = 16, M_ref_count = 1\<rparr>]
     = (4112, [\<lparr>M_capacity = 4096, M_data = 4096, M_size = 32, M_ref_count = 2\<rparr>])
   \<and> allocate 32 0 8192 [\<lparr>M_capacity = 4096, M_data = 4096, M_size = 32, M_ref_count = 2\<rparr>]
     = (4128, [\<lparr>M_capacity = 4096, M_data = 4096, M_size = 64, M_ref_count = 3\<rparr>])
   \<and> deallocate 4128 32 [\<lparr>M_capacity = 4096, M_data = 4096, M_size = 64, M_ref_count = 3\<rparr>]
     = [\<lparr>M_capacity = 4096, M_data = 4096, M_size = 32, M_ref_count = 2\<rparr>]
   \<and> fst (allocate 8 0 12288
       [\<lparr>M_capacity = 4096, M_data = 4096, M_size = 32, M_ref_count = 2\<rparr>]) = 4128
   \<and> fst (allocate 32 4112 12288
       [\<lparr>M_capacity = 4096, M_data = 4096, M_size = 32, M_ref_count = 2\<rparr>]) = 4128"
  using lifo_reuse [where rs = "[\<lparr>M_capacity = 4096, M_data = 4096, M_size = 16, M_ref_count = 1\<rparr>]"
        and n = 16 and hA = 0 and memA = 8192 and m = 32
        and hB = 0 and memB = 8192 and c = 8 and hC = 0 and memC = 12288]
    lifo_reuse [where rs = "[\<lparr>M_capacity = 4096, M_data = 4096, M_size = 16, M_ref_count = 1\<rparr>]"
        and n = 16 and hA = 0 and memA = 8192 and m = 32
        and hB = 0 and memB = 8192 and c = 32 and hC = 4112 and memC = 12288]
  by (simp add: allocate_def find_region_fitting_def fits_def Region_top_def Region_end_def
      Region_data_def Region_new_def Region_ref_def Region_resize_def S_capacity_def
      regions_ok_def region_ok_def fresh_block_def region_index_def)

text \<open>
  The claim as stated, for every state, fails when an earlier Region has room for
  C but not for B. The first Region has 96 bytes left; A (200 bytes) and B (150
  bytes) go to the second Region, B directly after A at 12488; after B is freed,
  \<open>allocate (50)\<close> takes the first Region that fits and returns 8096. It also
  fails when B fills a Region constructed for it: after A (16 bytes), B of 5000
  bytes gets a Region of 5000 bytes at 8192; once B is freed that Region is empty,
  but the strict capacity test rejects a C of 5000 bytes, which gets a third
  Region at 16384.
\<close>

theorem lifo_reuse_counterexample:
  "(allocate 4000 0 4096 []
     = (4096, [\<lparr>M_capacity = 4096, M_data = 4096, M_size = 4000, M_ref_count = 1\<rparr>])
   \<and> allocate 200 0 12288 [\<lparr>M_capacity = 4096, M_data = 4096, M_size = 4000, M_ref_count = 1\<rparr>]
     = (12288, [\<lparr>M_capacity = 4096, M_data = 4096, M_size = 4000, M_ref_count = 1\<rparr>,
                \<lparr>M_capacity = 4096, M_data = 12288, M_size = 200, M_ref_count = 1\<rparr>])
   \<and> allocate 150 0 20480 [\<lparr>M_capacity = 4096, M_data = 4096, M_size = 4000, M_ref_count = 1\<rparr>,
                \<lparr>M_capacity = 4096, M_data = 12288, M_size = 200, M_ref_count = 1\<rparr>]
     = (12488, [\<lparr>M_capacity = 4096, M_data = 4096, M_size = 4000, M_ref_count = 1\<rparr>,
                \<lparr>M_capacity = 4096, M_data = 12288, M_size = 350, M_ref_count = 2\<rparr>])
   \<and> deallocate 12488 150 [\<lparr>M_capacity = 4096, M_data = 4096, M_size = 4000, M_ref_count = 1\<rparr>,
                \<lparr>M_capacity = 4096, M_data = 12288, M_size = 350, M_ref_count = 2\<rparr>]
     = [\<lparr>M_capacity = 4096, M_data = 4096, M_size = 4000, M_ref_count = 1\<rparr>,
        \<lparr>M_capacity = 4096, M_data = 12288, M_size = 200, M_ref_count = 1\<rparr>]
   \<and> fst (allocate 50 0 20480 [\<lparr>M_capacity = 4096, M_data = 4096, M_size = 4000, M_ref_count = 1\<rparr>,
        \<lparr>M_capacity = 4096, M_data = 12288, M_size = 200, M_ref_count = 1\<rparr>]) = 8096
   \<and> (8096 :: 64 word) \<noteq> 12488)
   \<and> (allocate 16 0 4096 []
     = (4096, [\<lparr>M_capacity = 4096, M_data = 4096, M_size = 16, M_ref_count = 1\<rparr>])
   \<and> allocate 5000 0 8192 [\<lparr>M_capacity = 4096, M_data = 4096, M_size = 16, M_ref_count = 1\<rparr>]
     = (8192, [\<lparr>M_capacity = 4096, M_data = 4096, M_size = 16, M_ref_count = 1\<rparr>,
               \<lparr>M_capacity = 5000, M_data = 8192, M_size = 5000, M_ref_count = 1\<rparr>])
   \<and> deallocate 8192 5000 [\<lparr>M_capacity = 4096, M_data = 4096, M_size = 16, M_ref_count = 1\<rparr>,
               \<lparr>M_capacity = 5000, M_data = 8192, M_size = 5000, M_ref_count = 1\<rparr>]
     = [\<lparr>M_capacity = 4096, M_data = 4096, M_size = 16, M_ref_count = 1\<rparr>,
        \<lparr>M_capacity = 5000, M_data = 8192, M_size = 0, M_ref_count = 0\<rparr>]
   \<and> fst (allocate 5000 0 16384 [\<lparr>M_capacity = 4096, M_data = 4096, M_size = 16, M_ref_count = 1\<rparr>,
        \<lparr>M_capacity = 5000, M_data = 8192, M_size = 0, M_ref_count = 0\<rparr>]) = 16384
   \<and> (16384 :: 64 word) \<noteq> 8192)"
  by (simp add: allocate_def deallocate_def find_region_fitting_def fits_def Region_top_def
      Region_end_def Region_data_def Region_new_def Region_ref_def Region_resize_def
      Region_unref_def Region_unused_def Region_clear_def S_capacity_def)

section \<open>The two variants on their own blocks\<close>

text \<open>
  Run side by side, the heap-delegating variant has its blocks from \<open>new\<close> and the
  virtual-memory variant has them from \<open>mmap\<close> or \<open>VirtualAlloc\<close>: the Regions of
  the two lie at different addresses, and so do the pointers that the callers get
  and pass back. The runs compared here are those in which both stores hand out
  a block whenever they are asked for one (what the variants do when a store
  fails, \<open>std::bad_alloc\<close> in one and \<open>exit (1)\<close> in the other, is not a value
  of this embedding).
\<close>

subsection \<open>The place of a pointer\<close>








subsection \<open>Regions of the same shape\<close>










subsection \<open>Well-shaped Regions are kept\<close>





subsection \<open>The blocks of the Regions\<close>






subsection \<open>One call on corresponding Regions\<close>











section \<open>Sizes beyond the address space\<close>

text \<open>
  C5. Every Region is claimed to keep \<open>size \<le> capacity\<close> after every call of a
  sequence whose \<open>deallocate\<close> and \<open>reallocate\<close> calls pass live pointers with
  their exact sizes. The sequence below has two \<open>allocate\<close> calls only. In the
  second, of \<open>SIZE_MAX - 16\<close> bytes, the sum \<open>top () + n\<close> of the test in
  \<open>find_region_fitting\<close> wraps around to the address just below the Region's
  base, which is below its end: the Region of 4096 bytes, 16 of them in use, is
  selected, and \<open>resize\<close> leaves its size at \<open>2 ^ 64 - 1\<close>. (With every size
  below \<open>2 ^ 63\<close> the bound does hold, see \<open>sizes_within_capacity\<close>.)
\<close>

theorem size_exceeds_capacity:
  "owned_calls [Allocate 16 0 4096, Allocate 18446744073709551599 0 8192] ([], [])
   \<and> fst (run [Allocate 16 0 4096] ([], []))
       = [\<lparr>M_capacity = 4096, M_data = 4096, M_size = 16, M_ref_count = 1\<rparr>]
   \<and> fst (run [Allocate 16 0 4096, Allocate 18446744073709551599 0 8192] ([], []))
       = [\<lparr>M_capacity = 4096, M_data = 4096, M_size = 18446744073709551615, M_ref_count = 2\<rparr>]
   \<and> \<not> (M_size \<lparr>M_capacity = 4096, M_data = 4096, M_size = 18446744073709551615, M_ref_count = 2\<rparr>
          \<le> M_capacity \<lparr>M_capacity = 4096, M_data = 4096, M_size = 18446744073709551615, M_ref_count = 2\<rparr>)"
  by (simp add: allocate_def find_region_fitting_def fits_def Region_top_def
      Region_end_def Region_new_def Region_ref_def Region_resize_def S_capacity_def)

text \<open>
  For a size below \<open>2 ^ 63\<close> and well-shaped Regions the test does what it is
  written for: the Region that \<open>find_region_fitting\<close> returns has strictly more
  than \<open>n\<close> bytes left, so at least one byte of it stays unused.
\<close>

lemma find_region_fitting_slack:
  assumes "regions_ok rs" "unat n < 2 ^ 63" "find_region_fitting n hint rs = Some i"
  shows "unat (M_size (rs ! i)) + unat n < unat (M_capacity (rs ! i))"
proof -
  from find_region_fitting_Some [OF assms(3)] have i: "i < length rs" and f: "fits n (rs ! i)"
    by simp_all
  from f fits_nat [OF regions_ok_nth [OF assms(1) i] assms(2)] show ?thesis by simp
qed

text \<open>
  C7. \<open>find_region_fitting\<close> is claimed to select a Region exactly when
  \<open>top () + n < end ()\<close> holds, so that at least one byte of slack is reserved.
  The order of the search is as claimed (\<open>find_region_fitting_hint\<close>,
  \<open>find_region_fitting_scan\<close>), and so is the slack for every size below
  \<open>2 ^ 63\<close> (\<open>find_region_fitting_slack\<close>). For \<open>n = SIZE_MAX - 16\<close> the sum
  \<open>top () + n\<close> wraps around and the test holds although nothing is reserved: a
  Region with 4080 bytes left between its top and its end is selected by the
  scan, and a Region with 96 bytes left is selected as the Region of the hint
  12288 (the scan would have returned the first Region).
\<close>

theorem find_region_fitting_no_slack:
  "find_region_fitting 18446744073709551599 0
      [\<lparr>M_capacity = 4096, M_data = 4096, M_size = 16, M_ref_count = 1\<rparr>] = Some 0
   \<and> Region_end \<lparr>M_capacity = 4096, M_data = 4096, M_size = 16, M_ref_count = 1\<rparr>
       - Region_top \<lparr>M_capacity = 4096, M_data = 4096, M_size = 16, M_ref_count = 1\<rparr> = 4080
   \<and> (4080 :: size_t) < 18446744073709551599
   \<and> find_region_containing 12288
      [\<lparr>M_capacity = 4096, M_data = 4096, M_size = 16, M_ref_count = 1\<rparr>,
       \<lparr>M_capacity = 4096, M_data = 12288, M_size = 4000, M_ref_count = 1\<rparr>] = Some 1
   \<and> first_fitting 18446744073709551599
      [\<lparr>M_capacity = 4096, M_data = 4096, M_size = 16, M_ref_count = 1\<rparr>,
       \<lparr>M_capacity = 4096, M_data = 12288, M_size = 4000, M_ref_count = 1\<rparr>] = Some 0
   \<and> find_region_fitting 18446744073709551599 12288
      [\<lparr>M_capacity = 4096, M_data = 4096, M_size = 16, M_ref_count = 1\<rparr>,
       \<lparr>M_capacity = 4096, M_data = 12288, M_size = 4000, M_ref_count = 1\<rparr>] = Some 1
   \<and> Region_end \<lparr>M_capacity = 4096, M_data = 12288, M_size = 4000, M_ref_count = 1\<rparr>
       - Region_top \<lparr>M_capacity = 4096, M_data = 12288, M_size = 4000, M_ref_count = 1\<rparr> = 96"
  by (simp add: find_region_fitting_def fits_def Region_data_def Region_top_def Region_end_def)

end
